theory Spec2Isabelle
  imports Complex_Main
begin

section \<open>Text\<close>

text \<open>
  A Python \<^verbatim>\<open>str\<close> is modelled as a \<^typ>\<open>string\<close>, each \<^typ>\<open>char\<close> read as the code point
  of the same number (0 to 255).  On these code points the definitions below are Python's:
  \<^verbatim>\<open>str.isspace\<close> (which is also what \<^verbatim>\<open>str.strip\<close> removes and what \<^verbatim>\<open>\s\<close> matches in a
  \<^verbatim>\<open>str\<close> pattern) holds of 0x09-0x0D, 0x1C-0x1F, 0x20, 0x85 and 0xA0; the decimal digits are
  0-9; \<^verbatim>\<open>str.lower\<close> moves A-Z and the capital letters 0xC0-0xDE (0xD7 apart) up by 32.
\<close>

definition newline :: char where
  "newline = CHR 0x0A"

definition whitespace :: string where
  "whitespace = [CHR 0x09, CHR 0x0A, CHR 0x0B, CHR 0x0C, CHR 0x0D,
                 CHR 0x1C, CHR 0x1D, CHR 0x1E, CHR 0x1F, CHR 0x20, CHR 0x85, CHR 0xA0]"

definition is_space :: "char \<Rightarrow> bool" where
  "is_space c = (c \<in> set whitespace)"

definition is_digit :: "char \<Rightarrow> bool" where
  "is_digit c = (c \<in> set ''0123456789'')"

definition upper_letters :: string where
  "upper_letters = ''ABCDEFGHIJKLMNOPQRSTUVWXYZ'' @
     [CHR 0xC0, CHR 0xC1, CHR 0xC2, CHR 0xC3, CHR 0xC4, CHR 0xC5, CHR 0xC6, CHR 0xC7,
      CHR 0xC8, CHR 0xC9, CHR 0xCA, CHR 0xCB, CHR 0xCC, CHR 0xCD, CHR 0xCE, CHR 0xCF,
      CHR 0xD0, CHR 0xD1, CHR 0xD2, CHR 0xD3, CHR 0xD4, CHR 0xD5, CHR 0xD6,
      CHR 0xD8, CHR 0xD9, CHR 0xDA, CHR 0xDB, CHR 0xDC, CHR 0xDD, CHR 0xDE]"

definition lower_letters :: string where
  "lower_letters = ''abcdefghijklmnopqrstuvwxyz'' @
     [CHR 0xE0, CHR 0xE1, CHR 0xE2, CHR 0xE3, CHR 0xE4, CHR 0xE5, CHR 0xE6, CHR 0xE7,
      CHR 0xE8, CHR 0xE9, CHR 0xEA, CHR 0xEB, CHR 0xEC, CHR 0xED, CHR 0xEE, CHR 0xEF,
      CHR 0xF0, CHR 0xF1, CHR 0xF2, CHR 0xF3, CHR 0xF4, CHR 0xF5, CHR 0xF6,
      CHR 0xF8, CHR 0xF9, CHR 0xFA, CHR 0xFB, CHR 0xFC, CHR 0xFD, CHR 0xFE]"

definition lower_char :: "char \<Rightarrow> char" where
  "lower_char c = (case map_of (zip upper_letters lower_letters) c of Some d \<Rightarrow> d | None \<Rightarrow> c)"

definition lower :: "string \<Rightarrow> string" where
  "lower s = map lower_char s"

definition lstrip :: "string \<Rightarrow> string" where
  "lstrip s = dropWhile is_space s"

definition rstrip :: "string \<Rightarrow> string" where
  "rstrip s = rev (dropWhile is_space (rev s))"

definition strip :: "string \<Rightarrow> string" where
  "strip s = rstrip (lstrip s)"

text \<open>
  \<^verbatim>\<open>str.upper\<close>: the small letters a-z and 0xE0-0xFE (0xF7 apart) move down by 32 and the
  sharp s (0xDF) becomes \<^verbatim>\<open>SS\<close>.  The capitals of 0xB5 and 0xFF lie beyond code point 255;
  these two characters are left as they are.
\<close>

definition upper_char :: "char \<Rightarrow> string" where
  "upper_char c = (if c = CHR 0xDF then ''SS''
     else [case map_of (zip lower_letters upper_letters) c of Some d \<Rightarrow> d | None \<Rightarrow> c])"

definition upper :: "string \<Rightarrow> string" where
  "upper s = concat (map upper_char s)"

text \<open>
  \<^verbatim>\<open>str.splitlines\<close>: the line boundaries below code point 256 are 0x0A, 0x0B, 0x0C, 0x0D,
  0x1C, 0x1D, 0x1E and 0x85, and a carriage return followed by a line feed is one boundary.
  The first argument holds the characters of the current line, last one first.
\<close>

definition linebreaks :: string where
  "linebreaks = [CHR 0x0A, CHR 0x0B, CHR 0x0C, CHR 0x0D, CHR 0x1C, CHR 0x1D, CHR 0x1E, CHR 0x85]"

fun splitlines_from :: "string \<Rightarrow> string \<Rightarrow> string list" where
  "splitlines_from acc [] = (if acc = [] then [] else [rev acc])"
| "splitlines_from acc [c] =
     (if c \<in> set linebreaks then [rev acc] else [rev (c # acc)])"
| "splitlines_from acc (c # d # cs) =
     (if c = CHR 0x0D \<and> d = CHR 0x0A then rev acc # splitlines_from [] cs
      else if c \<in> set linebreaks then rev acc # splitlines_from [] (d # cs)
      else splitlines_from (c # acc) (d # cs))"

definition splitlines :: "string \<Rightarrow> string list" where
  "splitlines s = splitlines_from [] s"

text \<open>
  \<^verbatim>\<open>s.split(sep, 1)\<close> for a separator of one character: the text before the first
  separator and the text after it, or the whole text alone when there is none.
\<close>

definition split_once :: "char \<Rightarrow> string \<Rightarrow> string list" where
  "split_once sep s =
     (if sep \<in> set s then [takeWhile (\<lambda>c. c \<noteq> sep) s, tl (dropWhile (\<lambda>c. c \<noteq> sep) s)]
      else [s])"

text \<open>
  \<^verbatim>\<open>s.replace(old, new)\<close>: every occurrence of \<^verbatim>\<open>old\<close>, read from the left and without
  overlap; an empty \<^verbatim>\<open>old\<close> is found before every character and at the end.
\<close>

function py_replace :: "string \<Rightarrow> string \<Rightarrow> string \<Rightarrow> string" where
  "py_replace old new [] = (if old = [] then new else [])"
| "py_replace old new (c # cs) =
     (if old = [] then new @ c # py_replace old new cs
      else if take (length old) (c # cs) = old
        then new @ py_replace old new (drop (length old) (c # cs))
      else c # py_replace old new cs)"
  by pat_completeness auto
termination
  by (relation "measure (\<lambda>(old, new, s). length s)") auto

text \<open>
  \<^verbatim>\<open>str(n)\<close> and \<^verbatim>\<open>int(s)\<close> for Python's unbounded integers.  \<^verbatim>\<open>int\<close> accepts surrounding
  whitespace, one sign, and decimal digits with single underscores between them; on any
  other text it raises, which is \<^term>\<open>None\<close> here.  (The cap that recent interpreters put
  on the number of digits of one conversion is not modelled.)
\<close>

definition digit_char :: "nat \<Rightarrow> char" where
  "digit_char d = ''0123456789'' ! d"

function digits_of :: "nat \<Rightarrow> string" where
  "digits_of n = (if n < 10 then [digit_char n] else digits_of (n div 10) @ [digit_char (n mod 10)])"
  by pat_completeness auto
termination
  by (relation "measure id") auto

definition str_int :: "int \<Rightarrow> string" where
  "str_int i = (if i < 0 then CHR ''-'' # digits_of (nat (- i)) else digits_of (nat i))"

definition digit_val :: "char \<Rightarrow> nat" where
  "digit_val c = (case map_of (zip ''0123456789'' [0, 1, 2, 3, 4, 5, 6, 7, 8, 9]) c of
      Some d \<Rightarrow> d | None \<Rightarrow> 0)"

definition nat_of_digits :: "string \<Rightarrow> nat" where
  "nat_of_digits ds = foldl (\<lambda>n c. 10 * n + digit_val c) 0 ds"

fun valid_digits :: "string \<Rightarrow> bool" where
  "valid_digits [] = False"
| "valid_digits [c] = is_digit c"
| "valid_digits (c # d # cs) =
     (is_digit c \<and> (if d = CHR ''_'' then valid_digits cs else valid_digits (d # cs)))"

definition py_int :: "string \<Rightarrow> int option" where
  "py_int s =
     (let t = strip s;
          negative = (t \<noteq> [] \<and> hd t = CHR ''-'');
          body = (if t \<noteq> [] \<and> (hd t = CHR ''-'' \<or> hd t = CHR ''+'') then tl t else t)
      in if valid_digits body
         then Some ((if negative then - 1 else 1) * int (nat_of_digits (filter (\<lambda>c. c \<noteq> CHR ''_'') body)))
         else None)"

section \<open>Regular expressions\<close>

text \<open>
  The patterns of main.py are kept as syntax trees and run by one backtracking matcher,
  which tries the alternatives in the order of Python's \<^verbatim>\<open>re\<close> module: the left branch of
  an alternation first, the longest run first for a greedy repetition and the shortest
  first for a lazy one.  A non-capturing group \<^verbatim>\<open>(?:...)\<close> is the tree of its body.  The
  two flags used by the program are \<^verbatim>\<open>re.IGNORECASE\<close> and \<^verbatim>\<open>re.DOTALL\<close>; \<^verbatim>\<open>re.MULTILINE\<close> is
  never set, so \<^verbatim>\<open>^\<close> holds at position 0 only and \<^verbatim>\<open>$\<close> at the end of the text or before
  a line feed that ends it.
\<close>

record flags =
  ignorecase :: bool
  dotall :: bool

definition re_NOFLAG :: flags where
  "re_NOFLAG = \<lparr>ignorecase = False, dotall = False\<rparr>"

definition re_I :: flags where
  "re_I = \<lparr>ignorecase = True, dotall = False\<rparr>"

definition re_I_S :: flags where
  "re_I_S = \<lparr>ignorecase = True, dotall = True\<rparr>"

text \<open>One character: \<^verbatim>\<open>.\<close>, \<^verbatim>\<open>\s\<close>, \<^verbatim>\<open>\S\<close>, \<^verbatim>\<open>\d\<close>, a literal character, or a set \<^verbatim>\<open>[...]\<close>.\<close>

datatype atom = Dot | Space | NonSpace | Digit | Chr char | AnyOf "atom list"

fun atom_ok :: "flags \<Rightarrow> atom \<Rightarrow> char \<Rightarrow> bool" where
  "atom_ok f Dot c = (dotall f \<or> c \<noteq> newline)"
| "atom_ok f Space c = is_space c"
| "atom_ok f NonSpace c = (\<not> is_space c)"
| "atom_ok f Digit c = is_digit c"
| "atom_ok f (Chr x) c = (if ignorecase f then lower_char c = lower_char x else c = x)"
| "atom_ok f (AnyOf as) c = (\<exists>a \<in> set as. atom_ok f a c)"

text \<open>
  \<^verbatim>\<open>Lit\<close> is literal text, \<^verbatim>\<open>One a\<close> one character of \<^verbatim>\<open>a\<close>, \<^verbatim>\<open>Star a\<close> is \<^verbatim>\<open>a*\<close>,
  \<^verbatim>\<open>StarLazy a\<close> is \<^verbatim>\<open>a*?\<close>, \<^verbatim>\<open>Opt r\<close> is \<^verbatim>\<open>r?\<close>, \<^verbatim>\<open>Alt\<close> is \<^verbatim>\<open>|\<close>, \<^verbatim>\<open>Group\<close> is the capturing
  group (every pattern of the program has at most one), \<^verbatim>\<open>Ahead r\<close> is \<^verbatim>\<open>(?=r)\<close>, \<^verbatim>\<open>Bos\<close> is
  \<^verbatim>\<open>^\<close> and \<^verbatim>\<open>Eos\<close> is \<^verbatim>\<open>$\<close>.
\<close>

datatype regex =
    Nil_rx
  | Lit string
  | One atom
  | Star atom
  | StarLazy atom
  | Opt regex
  | Alt regex regex
  | Seq regex regex
  | Group regex
  | Ahead regex
  | Bos
  | Eos

fun seqs :: "regex list \<Rightarrow> regex" where
  "seqs [] = Nil_rx"
| "seqs (r # rs) = Seq r (seqs rs)"

definition Plus :: "atom \<Rightarrow> regex" where
  "Plus a = Seq (One a) (Star a)"

fun lit_prefix :: "flags \<Rightarrow> string \<Rightarrow> string \<Rightarrow> bool" where
  "lit_prefix f [] s = True"
| "lit_prefix f (x # xs) [] = False"
| "lit_prefix f (x # xs) (c # cs) = (atom_ok f (Chr x) c \<and> lit_prefix f xs cs)"

text \<open>
  A matcher state is the position in the text, the text from there on, and the text of
  the capturing group if it has been closed.  \<^verbatim>\<open>rmatch f r st k\<close> matches \<^verbatim>\<open>r\<close> from \<^verbatim>\<open>st\<close>
  and hands each way of doing so, in order of preference, to the continuation \<^verbatim>\<open>k\<close> until
  one is accepted.
\<close>

type_synonym mstate = "nat \<times> string \<times> string option"

function rmatch :: "flags \<Rightarrow> regex \<Rightarrow> mstate \<Rightarrow> (mstate \<Rightarrow> mstate option) \<Rightarrow> mstate option" where
  "rmatch f Nil_rx st k = k st"
| "rmatch f (Lit l) (p, s, g) k =
     (if lit_prefix f l s then k (p + length l, drop (length l) s, g) else None)"
| "rmatch f (One a) (p, [], g) k = None"
| "rmatch f (One a) (p, c # cs, g) k = (if atom_ok f a c then k (Suc p, cs, g) else None)"
| "rmatch f (Star a) (p, [], g) k = k (p, [], g)"
| "rmatch f (Star a) (p, c # cs, g) k =
     (if atom_ok f a c
      then (case rmatch f (Star a) (Suc p, cs, g) k of
              Some r \<Rightarrow> Some r
            | None \<Rightarrow> k (p, c # cs, g))
      else k (p, c # cs, g))"
| "rmatch f (StarLazy a) (p, [], g) k = k (p, [], g)"
| "rmatch f (StarLazy a) (p, c # cs, g) k =
     (case k (p, c # cs, g) of
        Some r \<Rightarrow> Some r
      | None \<Rightarrow> if atom_ok f a c then rmatch f (StarLazy a) (Suc p, cs, g) k else None)"
| "rmatch f (Opt r) st k =
     (case rmatch f r st k of Some x \<Rightarrow> Some x | None \<Rightarrow> k st)"
| "rmatch f (Alt a b) st k =
     (case rmatch f a st k of Some x \<Rightarrow> Some x | None \<Rightarrow> rmatch f b st k)"
| "rmatch f (Seq a b) st k = rmatch f a st (\<lambda>st'. rmatch f b st' k)"
| "rmatch f (Group r) (p, s, g) k =
     rmatch f r (p, s, g) (\<lambda>(p', s', g'). k (p', s', Some (take (p' - p) s)))"
| "rmatch f (Ahead r) st k =
     (case rmatch f r st Some of None \<Rightarrow> None | Some _ \<Rightarrow> k st)"
| "rmatch f Bos (p, s, g) k = (if p = 0 then k (p, s, g) else None)"
| "rmatch f Eos (p, s, g) k = (if s = [] \<or> s = [newline] then k (p, s, g) else None)"
  by pat_completeness auto
termination
  by (relation "inv_image (less_than <*lex*> less_than)
        (\<lambda>(f, r, (p, s, g), k). (size r, length s))") auto

text \<open>
  A match object: where the match starts and ends, \<^verbatim>\<open>group(0)\<close>, and \<^verbatim>\<open>group(1)\<close>, which is
  \<^verbatim>\<open>None\<close> when the group took no part in the match.
\<close>

datatype match_obj = Match (m_start: nat) (m_end: nat) (group0: string) (group1: "string option")

definition match_at :: "flags \<Rightarrow> regex \<Rightarrow> nat \<Rightarrow> string \<Rightarrow> match_obj option" where
  "match_at f r p s =
     (case rmatch f r (p, s, None) Some of
        None \<Rightarrow> None
      | Some (p', s', g) \<Rightarrow> Some (Match p p' (take (p' - p) s) g))"

text \<open>\<^verbatim>\<open>re.search\<close>: the match at the leftmost position that has one.\<close>

fun search_from :: "flags \<Rightarrow> regex \<Rightarrow> nat \<Rightarrow> string \<Rightarrow> match_obj option" where
  "search_from f r p [] = match_at f r p []"
| "search_from f r p (c # cs) =
     (case match_at f r p (c # cs) of
        Some m \<Rightarrow> Some m
      | None \<Rightarrow> search_from f r (Suc p) cs)"

definition re_search :: "regex \<Rightarrow> string \<Rightarrow> flags \<Rightarrow> match_obj option" where
  "re_search r s f = search_from f r 0 s"

text \<open>\<^verbatim>\<open>re.match\<close>: the match at position 0, if there is one.\<close>

definition re_match :: "regex \<Rightarrow> string \<Rightarrow> flags \<Rightarrow> match_obj option" where
  "re_match r s f = match_at f r 0 s"

text \<open>
  \<^verbatim>\<open>re.sub\<close> and \<^verbatim>\<open>re.findall\<close> read the text from the left and go on behind each match.
  Every pattern they are given in main.py needs at least one character to match, and for
  such patterns the two functions below are Python's; after an empty match they move on
  by one character.
\<close>

function sub_from :: "flags \<Rightarrow> regex \<Rightarrow> string \<Rightarrow> nat \<Rightarrow> string \<Rightarrow> string" where
  "sub_from f r repl p [] = (case match_at f r p [] of Some m \<Rightarrow> repl | None \<Rightarrow> [])"
| "sub_from f r repl p (c # cs) =
     (case match_at f r p (c # cs) of
        None \<Rightarrow> c # sub_from f r repl (Suc p) cs
      | Some m \<Rightarrow>
          if m_end m \<le> p then repl @ c # sub_from f r repl (Suc p) cs
          else repl @ sub_from f r repl (m_end m) (drop (m_end m - p) (c # cs)))"
  by pat_completeness auto
termination
  by (relation "measure (\<lambda>(f, r, repl, p, s). length s)") auto

definition re_sub :: "regex \<Rightarrow> string \<Rightarrow> string \<Rightarrow> flags \<Rightarrow> string" where
  "re_sub r repl s f = sub_from f r repl 0 s"

definition group1_or_empty :: "match_obj \<Rightarrow> string" where
  "group1_or_empty m = (case group1 m of None \<Rightarrow> [] | Some g \<Rightarrow> g)"

function findall_from :: "flags \<Rightarrow> regex \<Rightarrow> nat \<Rightarrow> string \<Rightarrow> string list" where
  "findall_from f r p [] = (case match_at f r p [] of Some m \<Rightarrow> [group1_or_empty m] | None \<Rightarrow> [])"
| "findall_from f r p (c # cs) =
     (case search_from f r p (c # cs) of
        None \<Rightarrow> []
      | Some m \<Rightarrow>
          if m_end m \<le> p then group1_or_empty m # findall_from f r (Suc p) cs
          else group1_or_empty m # findall_from f r (m_end m) (drop (m_end m - p) (c # cs)))"
  by pat_completeness auto
termination
  by (relation "measure (\<lambda>(f, r, p, s). length s)") auto

definition re_findall :: "regex \<Rightarrow> string \<Rightarrow> flags \<Rightarrow> string list" where
  "re_findall r s f = findall_from f r 0 s"

section \<open>Tone normalisation\<close>

text \<open>
  \<^verbatim>\<open>normalize_tone\<close> (main.py, lines 91-94).  The set literal \<^verbatim>\<open>allowed\<close> is used for
  membership only and is kept as the list of its six elements; \<^verbatim>\<open>tone or ""\<close> is the
  identity on a \<^verbatim>\<open>str\<close>.
\<close>

definition allowed :: "string list" where
  "allowed = [''whimsical'', ''exciting'', ''calming'', ''humorous'', ''heartwarming'', ''inspiring'']"

definition normalize_tone :: "string \<Rightarrow> string" where
  "normalize_tone tone = (let t = lower (strip tone) in if t \<in> set allowed then t else ''whimsical'')"

section \<open>Data model\<close>

text \<open>The enum and the three dataclasses of main.py (lines 37-74).\<close>

datatype StoryCategory = ADVENTURE | FANTASY | ANIMAL | FRIENDSHIP | BEDTIME | EDUCATIONAL | FUNNY

record StoryRequest =
  raw_input :: string
  category :: StoryCategory
  characters :: "string list"
  themes :: "string list"
  setting :: string
  tone :: string

record JudgeFeedback =
  overall_score :: int
  age_appropriateness :: int
  engagement :: int
  moral_clarity :: int
  story_structure :: int
  language_quality :: int
  feedback :: string
  suggestions :: "string list"

record Story =
  title :: string
  content :: string
  moral :: string
  version :: int

definition MAX_REFINEMENT_ITERATIONS :: nat where
  "MAX_REFINEMENT_ITERATIONS = 5"

definition JUDGE_THRESHOLD :: int where
  "JUDGE_THRESHOLD = 7"

definition API_MAX_RETRIES :: nat where
  "API_MAX_RETRIES = 3"

definition API_RETRY_BACKOFF_SECONDS :: rat where
  "API_RETRY_BACKOFF_SECONDS = 3 / 2"

definition CHOICE_MODE_MAX_STEPS :: nat where
  "CHOICE_MODE_MAX_STEPS = 3"

text \<open>
  The exceptions the modelled code can raise.  A function that can raise returns a sum,
  the exception on the left.
\<close>

datatype exception = RuntimeError string | ValueError | AttributeError | IndexError | EOFError

definition and_then :: "exception + 'a \<Rightarrow> ('a \<Rightarrow> exception + 'b) \<Rightarrow> exception + 'b" where
  "and_then x body = (case x of Inl e \<Rightarrow> Inl e | Inr v \<Rightarrow> body v)"

text \<open>
  \<^verbatim>\<open>clamp_int\<close> (lines 77-82).  It is called on \<^verbatim>\<open>m.group(1)\<close> only; \<^verbatim>\<open>int\<close> raises on
  \<^verbatim>\<open>None\<close> and on text that is no number, and the handler returns the default (\<^verbatim>\<open>dflt\<close> here).
\<close>

definition clamp_int :: "string option \<Rightarrow> int \<Rightarrow> int \<Rightarrow> int \<Rightarrow> int" where
  "clamp_int v lo hi dflt =
     (case v of
        None \<Rightarrow> dflt
      | Some s \<Rightarrow> (case py_int s of None \<Rightarrow> dflt | Some n \<Rightarrow> max lo (min hi n)))"

text \<open>\<^verbatim>\<open>format_story_for_context\<close> (lines 97-98).\<close>

definition format_story_for_context :: "Story \<Rightarrow> string" where
  "format_story_for_context story =
     ''TITLE: '' @ title story @ [newline] @ ''STORY:'' @ [newline] @ content story @ [newline]
     @ ''MORAL: '' @ moral story @ [newline] @ ''VERSION: '' @ str_int (version story)"

section \<open>Extractors\<close>

text \<open>
  \<^verbatim>\<open>m.group(1).strip()\<close> raises \<^verbatim>\<open>AttributeError\<close> when the group took no part in the match;
  unpacking a list into two names raises \<^verbatim>\<open>ValueError\<close> unless it has two elements; and
  \<^verbatim>\<open>xs[i]\<close> raises \<^verbatim>\<open>IndexError\<close> beyond the end.
\<close>

definition group1_strip :: "match_obj \<Rightarrow> exception + string" where
  "group1_strip m = (case group1 m of None \<Rightarrow> Inl AttributeError | Some g \<Rightarrow> Inr (strip g))"

definition unpack2 :: "'a list \<Rightarrow> exception + 'a \<times> 'a" where
  "unpack2 xs = (case xs of [a, b] \<Rightarrow> Inr (a, b) | _ \<Rightarrow> Inl ValueError)"

definition item :: "'a list \<Rightarrow> nat \<Rightarrow> exception + 'a" where
  "item xs i = (if i < length xs then Inr (xs ! i) else Inl IndexError)"

definition colon :: regex where
  "colon = Lit '':''"

subsection \<open>Request shape\<close>

text \<open>\<^verbatim>\<open>parse_analyzer_response\<close> (lines 167-174); the dictionary is a map.\<close>

fun analyzer_lines :: "string list \<Rightarrow> (string \<rightharpoonup> string) \<Rightarrow> exception + (string \<rightharpoonup> string)" where
  "analyzer_lines [] parsed = Inr parsed"
| "analyzer_lines (line # rest) parsed =
     (if CHR '':'' \<notin> set line then analyzer_lines rest parsed
      else
        case unpack2 (split_once CHR '':'' line) of
          Inl e \<Rightarrow> Inl e
        | Inr (key, v) \<Rightarrow> analyzer_lines rest (parsed(upper (strip key) \<mapsto> strip v)))"

definition parse_analyzer_response :: "string \<Rightarrow> exception + (string \<rightharpoonup> string)" where
  "parse_analyzer_response response = analyzer_lines (splitlines (strip response)) Map.empty"

subsection \<open>Story shape\<close>

text \<open>
  \<^verbatim>\<open>parse_story_response\<close> (lines 251-276) and its four patterns, in the order of the
  source:
  \<^verbatim>\<open>(?:TITLE|Title)\s*:?\s*(.*?)(?=\n|$)\<close>,
  \<^verbatim>\<open>(?:MORAL|Moral)\s*:?\s*(.*?)$\<close>,
  \<^verbatim>\<open>(?:STORY|Story)\s*:?\s*([\s\S]*?)(?=(?:MORAL|Moral)\s*:|$)\<close> and
  \<^verbatim>\<open>^(?:STORY|Story)\s*:?\s*\<close>.
\<close>

definition title_rx :: regex where
  "title_rx = seqs [Alt (Lit ''TITLE'') (Lit ''Title''), Star Space, Opt colon, Star Space,
     Group (StarLazy Dot), Ahead (Alt (Lit [newline]) Eos)]"

definition moral_rx :: regex where
  "moral_rx = seqs [Alt (Lit ''MORAL'') (Lit ''Moral''), Star Space, Opt colon, Star Space,
     Group (StarLazy Dot), Eos]"

definition story_rx :: regex where
  "story_rx = seqs [Alt (Lit ''STORY'') (Lit ''Story''), Star Space, Opt colon, Star Space,
     Group (StarLazy (AnyOf [Space, NonSpace])),
     Ahead (Alt (seqs [Alt (Lit ''MORAL'') (Lit ''Moral''), Star Space, colon]) Eos)]"

definition story_prefix_rx :: regex where
  "story_prefix_rx = seqs [Bos, Alt (Lit ''STORY'') (Lit ''Story''), Star Space, Opt colon, Star Space]"

definition parse_story_response :: "string \<Rightarrow> string \<Rightarrow> exception + string \<times> string \<times> string" where
  "parse_story_response response fallback_title =
     (let text = response;
          title_match = re_search title_rx text re_I;
          moral_match = re_search moral_rx text re_I_S;
          story_match = re_search story_rx text re_I
      in
      and_then (case title_match of
                  None \<Rightarrow> Inr fallback_title
                | Some m \<Rightarrow> and_then (group1_strip m)
                    (\<lambda>t. Inr (if t \<noteq> [] then t else fallback_title)))
        (\<lambda>title.
      and_then (case moral_match of None \<Rightarrow> Inr [] | Some m \<Rightarrow> group1_strip m)
        (\<lambda>moral.
      and_then (case story_match of None \<Rightarrow> Inr [] | Some m \<Rightarrow> group1_strip m)
        (\<lambda>story_text.
      let content =
            (if story_text \<noteq> [] then story_text
             else
               let c0 = text;
                   c1 = (case title_match of None \<Rightarrow> c0 | Some m \<Rightarrow> py_replace (group0 m) [] c0);
                   c2 = (case moral_match of None \<Rightarrow> c1 | Some m \<Rightarrow> py_replace (group0 m) [] c1)
               in strip c2)
      in Inr (title, strip (re_sub story_prefix_rx [] content re_I), moral)))))"

subsection \<open>Feedback shape\<close>

text \<open>
  \<^verbatim>\<open>parse_judge_response\<close> (lines 333-374).  The six score patterns have one form, a label
  followed by \<^verbatim>\<open>\s*:?\s*(\d+)\<close>; five labels are \<^verbatim>\<open>(?:A[_\s]?B|A B)\<close> with the second
  branch in mixed case, the third is \<^verbatim>\<open>(?:ENGAGEMENT|Engagement)\<close>.  The bullet pattern is
  \<^verbatim>\<open>[-...*]\s*(.+)\<close>; between the hyphen and the asterisk its set holds the code points
  0xE2, 0x20AC and 0xA2, of which the second is beyond the characters of this model.
\<close>

definition label2 :: "string \<Rightarrow> string \<Rightarrow> string \<Rightarrow> regex" where
  "label2 a b mixed = Alt (seqs [Lit a, Opt (One (AnyOf [Chr CHR ''_'', Space])), Lit b]) (Lit mixed)"

definition score_rx :: "regex \<Rightarrow> regex" where
  "score_rx label = seqs [label, Star Space, Opt colon, Star Space, Group (Plus Digit)]"

definition overall_rx :: regex where
  "overall_rx = score_rx (label2 ''OVERALL'' ''SCORE'' ''Overall Score'')"

definition age_rx :: regex where
  "age_rx = score_rx (label2 ''AGE'' ''APPROPRIATENESS'' ''Age Appropriateness'')"

definition engagement_rx :: regex where
  "engagement_rx = score_rx (Alt (Lit ''ENGAGEMENT'') (Lit ''Engagement''))"

definition moral_clarity_rx :: regex where
  "moral_clarity_rx = score_rx (label2 ''MORAL'' ''CLARITY'' ''Moral Clarity'')"

definition structure_rx :: regex where
  "structure_rx = score_rx (label2 ''STORY'' ''STRUCTURE'' ''Story Structure'')"

definition language_rx :: regex where
  "language_rx = score_rx (label2 ''LANGUAGE'' ''QUALITY'' ''Language Quality'')"

definition feedback_rx :: regex where
  "feedback_rx = seqs [Alt (Lit ''FEEDBACK'') (Lit ''Feedback''), Star Space, Opt colon, Star Space,
     Group (StarLazy Dot),
     Ahead (Alt (seqs [Alt (Lit ''SUGGESTIONS'') (Lit ''Suggestions''), Star Space, colon]) Eos)]"

definition suggestions_rx :: regex where
  "suggestions_rx = seqs [Alt (Lit ''SUGGESTIONS'') (Lit ''Suggestions''), Star Space, Opt colon,
     Star Space, Group (StarLazy Dot), Eos]"

definition bullet_rx :: regex where
  "bullet_rx = seqs [One (AnyOf [Chr CHR ''-'', Chr CHR 0xE2, Chr CHR 0xA2, Chr CHR ''*'']),
     Star Space, Group (Plus Dot)]"

definition find_score :: "string \<Rightarrow> regex \<Rightarrow> int \<Rightarrow> int" where
  "find_score text pattern dflt =
     (case re_search pattern text re_I of
        None \<Rightarrow> dflt
      | Some m \<Rightarrow> clamp_int (group1 m) 1 10 dflt)"

definition parse_suggestions :: "string \<Rightarrow> exception + string list" where
  "parse_suggestions text =
     (case re_search suggestions_rx text re_I_S of
        None \<Rightarrow> Inr []
      | Some m \<Rightarrow>
          and_then (group1_strip m)
            (\<lambda>suggestions_text.
               let bullet_lines = re_findall bullet_rx suggestions_text re_NOFLAG;
                   found = filter (\<lambda>s. s \<noteq> []) (map strip bullet_lines)
               in Inr (if found = [] \<and> suggestions_text \<noteq> [] then [suggestions_text] else found)))"

definition parse_judge_response :: "string \<Rightarrow> exception + JudgeFeedback" where
  "parse_judge_response response =
     (let text = response;
          overall = find_score text overall_rx 5;
          age = find_score text age_rx 5;
          eng = find_score text engagement_rx 5;
          mor = find_score text moral_clarity_rx 5;
          struct = find_score text structure_rx 5;
          lang = find_score text language_rx 5
      in
      and_then (case re_search feedback_rx text re_I_S of None \<Rightarrow> Inr [] | Some m \<Rightarrow> group1_strip m)
        (\<lambda>fb.
      and_then (parse_suggestions text)
        (\<lambda>sugg.
      Inr \<lparr>overall_score = overall, age_appropriateness = age, engagement = eng,
           moral_clarity = mor, story_structure = struct, language_quality = lang,
           feedback = fb, suggestions = sugg\<rparr>)))"

subsection \<open>Choice shape\<close>

text \<open>
  \<^verbatim>\<open>parse_choice_proposal\<close> (lines 524-543), with the patterns \<^verbatim>\<open>CHOICE_1\s*:\s*(.+)\<close>,
  \<^verbatim>\<open>CHOICE_2\s*:\s*(.+)\<close> and \<^verbatim>\<open>^\s*[12][\)\.]\s*\<close>.
\<close>

definition choice_rx :: "string \<Rightarrow> regex" where
  "choice_rx label = seqs [Lit label, Star Space, colon, Star Space, Group (Plus Dot)]"

definition numbered_rx :: regex where
  "numbered_rx = seqs [Bos, Star Space, One (AnyOf [Chr CHR ''1'', Chr CHR ''2'']),
     One (AnyOf [Chr CHR '')'', Chr CHR ''.'']), Star Space]"

definition default_choice_1 :: string where
  "default_choice_1 = ''Follow a trail of twinkling lights to see where it leads.''"

definition default_choice_2 :: string where
  "default_choice_2 = ''Ask a friendly neighbor for help and a cozy hint.''"

definition numbered_lines :: "string \<Rightarrow> string list" where
  "numbered_lines text =
     (let lines = filter (\<lambda>ln. ln \<noteq> []) (map strip (splitlines text))
      in map (\<lambda>ln. strip (re_sub numbered_rx [] ln re_NOFLAG))
           (filter (\<lambda>ln. re_match numbered_rx ln re_NOFLAG \<noteq> None) lines))"

definition parse_choice_proposal :: "string \<Rightarrow> exception + string \<times> string" where
  "parse_choice_proposal text =
     and_then (case re_search (choice_rx ''CHOICE_1'') text re_I of
                 None \<Rightarrow> Inr [] | Some m \<Rightarrow> group1_strip m)
       (\<lambda>c1.
     and_then (case re_search (choice_rx ''CHOICE_2'') text re_I of
                 None \<Rightarrow> Inr [] | Some m \<Rightarrow> group1_strip m)
       (\<lambda>c2.
     and_then
       (if c1 = [] \<or> c2 = [] then
          (let numbered = numbered_lines text
           in if length numbered \<ge> 2
              then and_then (item numbered 0) (\<lambda>n0. and_then (item numbered 1) (\<lambda>n1. Inr (n0, n1)))
              else Inr (c1, c2))
        else Inr (c1, c2))
       (\<lambda>(c1, c2).
     Inr (if c1 = [] then default_choice_1 else c1, if c2 = [] then default_choice_2 else c2))))"

subsection \<open>Continuation shape\<close>

text \<open>
  \<^verbatim>\<open>parse_continuation_response\<close> (lines 568-583), with the patterns
  \<^verbatim>\<open>(?:CONTINUATION)\s*:?(.*?)(?=(?:MORAL)\s*:|$)\<close>, \<^verbatim>\<open>(?:MORAL)\s*:?(.*)$\<close> and
  \<^verbatim>\<open>^CONTINUATION\s*:?\<close>.
\<close>

definition continuation_rx :: regex where
  "continuation_rx = seqs [Lit ''CONTINUATION'', Star Space, Opt colon, Group (StarLazy Dot),
     Ahead (Alt (seqs [Lit ''MORAL'', Star Space, colon]) Eos)]"

definition continuation_moral_rx :: regex where
  "continuation_moral_rx = seqs [Lit ''MORAL'', Star Space, Opt colon, Group (Star Dot), Eos]"

definition continuation_prefix_rx :: regex where
  "continuation_prefix_rx = seqs [Bos, Lit ''CONTINUATION'', Star Space, Opt colon]"

definition parse_continuation_response :: "string \<Rightarrow> exception + string \<times> string" where
  "parse_continuation_response text =
     (let t = text;
          cont_match = re_search continuation_rx t re_I_S;
          moral_match = re_search continuation_moral_rx t re_I_S
      in
      and_then (case cont_match of
                  None \<Rightarrow> Inr (strip t)
                | Some m \<Rightarrow> and_then (group1_strip m) (\<lambda>c. Inr (if c \<noteq> [] then c else strip t)))
        (\<lambda>continuation.
      and_then (case moral_match of None \<Rightarrow> Inr [] | Some m \<Rightarrow> group1_strip m)
        (\<lambda>moral.
      Inr (strip (re_sub continuation_prefix_rx [] continuation re_I), moral))))"

section \<open>The remote service and the gateway\<close>

text \<open>
  The text-generation service is outside the program.  One attempt either raises (the
  text is what \<^verbatim>\<open>str\<close> makes of the exception) or returns a content, which may be
  \<^verbatim>\<open>None\<close>.  What the service answers may depend on how many attempts were made before
  and on everything the program puts into the prompt; the prompt is therefore kept as
  the data it is formatted from, not as text.
\<close>

datatype outcome = Raises string | Content "string option"

datatype prompt =
    StoryPrompt StoryRequest "string option"
  | JudgePrompt Story StoryRequest nat "JudgeFeedback list"
  | RefinePrompt Story StoryRequest "JudgeFeedback option"
  | ChoicePrompt Story StoryRequest nat nat
  | ContinuationPrompt Story StoryRequest string nat nat

text \<open>
  The trace records what the program has produced so far: it is written and never read
  by the functions below.
\<close>

datatype event =
    StoryProduced Story
  | StoryJudged nat Story JudgeFeedback
  | BeatCommitted nat Story

text \<open>
  The world: the service, the number of attempts made so far, the seconds slept in
  \<^verbatim>\<open>time.sleep\<close>, the lines still to come on standard input, and the trace.
\<close>

record world =
  remote :: "nat \<Rightarrow> prompt \<Rightarrow> outcome"
  calls :: nat
  sleeps :: "rat list"
  stdin :: "string list"
  trace :: "event list"

definition record_event :: "event \<Rightarrow> world \<Rightarrow> world" where
  "record_event e w = w\<lparr>trace := trace w @ [e]\<rparr>"

text \<open>
  \<^verbatim>\<open>call_model\<close> (lines 118-147).  The first argument is what is left of
  \<^verbatim>\<open>range(1, API_MAX_RETRIES + 1)\<close>; the empty list is the code behind the loop, which
  \<^verbatim>\<open>break\<close> jumps to.
\<close>

definition exhausted_message :: "string option \<Rightarrow> string" where
  "exhausted_message last_err =
     ''OpenAI API call failed after '' @ str_int (int API_MAX_RETRIES) @ '' attempts: ''
     @ (case last_err of None \<Rightarrow> ''None'' | Some e \<Rightarrow> e)"

fun call_model_loop :: "nat list \<Rightarrow> prompt \<Rightarrow> string option \<Rightarrow> world \<Rightarrow> (exception + string) \<times> world" where
  "call_model_loop [] pr last_err w = (Inl (RuntimeError (exhausted_message last_err)), w)"
| "call_model_loop (attempt # rest) pr last_err w =
     (let w1 = w\<lparr>calls := Suc (calls w)\<rparr> in
      case remote w (calls w) pr of
        Content c \<Rightarrow> (Inr (case c of None \<Rightarrow> [] | Some s \<Rightarrow> s), w1)
      | Raises e \<Rightarrow>
          if attempt < API_MAX_RETRIES
          then call_model_loop rest pr (Some e)
                 (w1\<lparr>sleeps := sleeps w1 @ [API_RETRY_BACKOFF_SECONDS * of_nat attempt]\<rparr>)
          else call_model_loop [] pr (Some e) w1)"

definition call_model :: "prompt \<Rightarrow> world \<Rightarrow> (exception + string) \<times> world" where
  "call_model pr w = call_model_loop [1..<API_MAX_RETRIES + 1] pr None w"

section \<open>The draft, judge and refine loop\<close>

text \<open>\<^verbatim>\<open>generate_story\<close> (lines 279-295).\<close>

definition generate_story :: "StoryRequest \<Rightarrow> string option \<Rightarrow> world \<Rightarrow> (exception + Story) \<times> world" where
  "generate_story request improvement_context w =
     (case call_model (StoryPrompt request improvement_context) w of
        (Inl e, w1) \<Rightarrow> (Inl e, w1)
      | (Inr response, w1) \<Rightarrow>
          (case parse_story_response response ''Untitled Story'' of
             Inl e \<Rightarrow> (Inl e, w1)
           | Inr (t, c, m) \<Rightarrow>
               (let story = \<lparr>title = t, content = c, moral = m, version = 1\<rparr>
                in (Inr story, record_event (StoryProduced story) w1))))"

text \<open>\<^verbatim>\<open>judge_story\<close> (lines 377-414).\<close>

definition judge_story :: "Story \<Rightarrow> StoryRequest \<Rightarrow> nat \<Rightarrow> JudgeFeedback list \<Rightarrow> world \<Rightarrow> (exception + JudgeFeedback) \<times> world" where
  "judge_story story request round_num history w =
     (case call_model (JudgePrompt story request round_num history) w of
        (Inl e, w1) \<Rightarrow> (Inl e, w1)
      | (Inr response, w1) \<Rightarrow>
          (case parse_judge_response response of
             Inl e \<Rightarrow> (Inl e, w1)
           | Inr fb \<Rightarrow> (Inr fb, record_event (StoryJudged round_num story fb) w1)))"

text \<open>
  \<^verbatim>\<open>refine_story\<close> (lines 433-467); \<^verbatim>\<open>build_improvement_context\<close> (lines 419-430) reads the
  last entry of the history, if there is one.
\<close>

definition latest :: "JudgeFeedback list \<Rightarrow> JudgeFeedback option" where
  "latest history = (if history = [] then None else Some (last history))"

definition refine_story :: "Story \<Rightarrow> StoryRequest \<Rightarrow> JudgeFeedback list \<Rightarrow> world \<Rightarrow> (exception + Story) \<times> world" where
  "refine_story story request history w =
     (case call_model (RefinePrompt story request (latest history)) w of
        (Inl e, w1) \<Rightarrow> (Inl e, w1)
      | (Inr response, w1) \<Rightarrow>
          (case parse_story_response response (title story) of
             Inl e \<Rightarrow> (Inl e, w1)
           | Inr (t, c, m) \<Rightarrow>
               (let refined = \<lparr>title = t, content = c, moral = m, version = version story + 1\<rparr>
                in (Inr refined, record_event (StoryProduced refined) w1))))"

text \<open>
  \<^verbatim>\<open>generate_and_refine_story\<close> (lines 769-808).  The first argument of the loop is what is
  left of \<^verbatim>\<open>range(MAX_REFINEMENT_ITERATIONS)\<close>.  Printing is not modelled.
\<close>

fun refine_loop :: "nat list \<Rightarrow> StoryRequest \<Rightarrow> Story \<Rightarrow> JudgeFeedback list \<Rightarrow> world
    \<Rightarrow> (exception + Story \<times> JudgeFeedback list) \<times> world" where
  "refine_loop [] request story history w = (Inr (story, history), w)"
| "refine_loop (iteration # rest) request story history w =
     (let round_num = iteration + 1 in
      case judge_story story request round_num history w of
        (Inl e, w1) \<Rightarrow> (Inl e, w1)
      | (Inr fb, w1) \<Rightarrow>
          (let history1 = history @ [fb] in
           if overall_score fb \<ge> JUDGE_THRESHOLD then (Inr (story, history1), w1)
           else if iteration < MAX_REFINEMENT_ITERATIONS - 1 then
             (case refine_story story request history1 w1 of
                (Inl e, w2) \<Rightarrow> (Inl e, w2)
              | (Inr refined, w2) \<Rightarrow> refine_loop rest request refined history1 w2)
           else refine_loop rest request story history1 w1))"

definition generate_and_refine_story :: "StoryRequest \<Rightarrow> world
    \<Rightarrow> (exception + Story \<times> JudgeFeedback list) \<times> world" where
  "generate_and_refine_story request w =
     (case generate_story request None w of
        (Inl e, w1) \<Rightarrow> (Inl e, w1)
      | (Inr story, w1) \<Rightarrow> refine_loop [0..<MAX_REFINEMENT_ITERATIONS] request story [] w1)"

section \<open>Interactive choice mode\<close>

text \<open>\<^verbatim>\<open>propose_next_choices\<close> (lines 546-565) and \<^verbatim>\<open>generate_continuation\<close> (lines 586-636).\<close>

definition propose_next_choices :: "Story \<Rightarrow> StoryRequest \<Rightarrow> nat \<Rightarrow> nat \<Rightarrow> world
    \<Rightarrow> (exception + string \<times> string) \<times> world" where
  "propose_next_choices story request step_num total_steps w =
     (case call_model (ChoicePrompt story request step_num total_steps) w of
        (Inl e, w1) \<Rightarrow> (Inl e, w1)
      | (Inr resp, w1) \<Rightarrow> (parse_choice_proposal resp, w1))"

definition generate_continuation :: "Story \<Rightarrow> StoryRequest \<Rightarrow> string \<Rightarrow> nat \<Rightarrow> nat \<Rightarrow> world
    \<Rightarrow> (exception + string \<times> string) \<times> world" where
  "generate_continuation story request chosen_option step_num total_steps w =
     (case call_model (ContinuationPrompt story request chosen_option step_num total_steps) w of
        (Inl e, w1) \<Rightarrow> (Inl e, w1)
      | (Inr resp, w1) \<Rightarrow> (parse_continuation_response resp, w1))"

text \<open>
  The inner \<^verbatim>\<open>while True\<close> loop of \<^verbatim>\<open>run_interactive_choice_mode\<close> (lines 655-662): it reads
  lines until one is a pick or a word that leaves the mode; \<^verbatim>\<open>input\<close> raises \<^verbatim>\<open>EOFError\<close>
  when standard input has ended.
\<close>

datatype pick = Quit | Picked string

fun read_pick :: "string list \<Rightarrow> (exception + pick) \<times> string list" where
  "read_pick [] = (Inl EOFError, [])"
| "read_pick (line # rest) =
     (let pick = lower (strip line) in
      if pick \<in> set [''quit'', ''q'', ''exit''] then (Inr Quit, rest)
      else if pick \<in> set [''1'', ''2''] then (Inr (Picked pick), rest)
      else read_pick rest)"

definition await_selection :: "world \<Rightarrow> (exception + pick) \<times> world" where
  "await_selection w = (case read_pick (stdin w) of (r, rest) \<Rightarrow> (r, w\<lparr>stdin := rest\<rparr>))"

text \<open>The commit of one continuation (lines 667-676).\<close>

definition commit_continuation :: "Story \<Rightarrow> string \<Rightarrow> string \<Rightarrow> Story" where
  "commit_continuation current continuation maybe_moral =
     (let new_content = strip (rstrip (content current) @ [newline, newline] @ strip continuation);
          new_moral = (if strip maybe_moral \<noteq> [] then strip maybe_moral else moral current)
      in \<lparr>title = title current, content = new_content, moral = new_moral,
          version = version current + 1\<rparr>)"

text \<open>
  \<^verbatim>\<open>run_interactive_choice_mode\<close> (lines 639-691).  The first argument of the loop is what
  is left of \<^verbatim>\<open>range(1, total_steps + 1)\<close>.
\<close>

fun choice_loop :: "nat list \<Rightarrow> nat \<Rightarrow> Story \<Rightarrow> StoryRequest \<Rightarrow> world \<Rightarrow> (exception + Story) \<times> world" where
  "choice_loop [] total_steps current request w = (Inr current, w)"
| "choice_loop (step # rest) total_steps current request w =
     (case propose_next_choices current request step total_steps w of
        (Inl e, w1) \<Rightarrow> (Inl e, w1)
      | (Inr (c1, c2), w1) \<Rightarrow>
          (case await_selection w1 of
             (Inl e, w2) \<Rightarrow> (Inl e, w2)
           | (Inr Quit, w2) \<Rightarrow> (Inr current, w2)
           | (Inr (Picked pick), w2) \<Rightarrow>
               (let chosen = (if pick = ''1'' then c1 else c2) in
                case generate_continuation current request chosen step total_steps w2 of
                  (Inl e, w3) \<Rightarrow> (Inl e, w3)
                | (Inr (continuation, maybe_moral), w3) \<Rightarrow>
                    (let next = commit_continuation current continuation maybe_moral;
                         w4 = record_event (BeatCommitted step next) w3
                     in if strip maybe_moral \<noteq> [] then (Inr next, w4)
                        else choice_loop rest total_steps next request w4))))"

definition run_interactive_choice_mode :: "Story \<Rightarrow> StoryRequest \<Rightarrow> nat \<Rightarrow> world \<Rightarrow> (exception + Story) \<times> world" where
  "run_interactive_choice_mode story request total_steps w =
     choice_loop [1..<total_steps + 1] total_steps story request w"

section \<open>Notions used in the statements\<close>

text \<open>
  A pattern sets the group when every way of matching it runs through its capturing
  group; a matcher state has the group when the group has been closed.
\<close>

fun sets_group :: "regex \<Rightarrow> bool" where
  "sets_group (Group r) = True"
| "sets_group (Seq a b) = (sets_group a \<or> sets_group b)"
| "sets_group (Alt a b) = (sets_group a \<and> sets_group b)"
| "sets_group _ = False"

definition has_group :: "mstate \<Rightarrow> bool" where
  "has_group st = (snd (snd st) \<noteq> None)"

text \<open>
  A text is trimmed when it neither starts nor ends with whitespace.
\<close>

definition trimmed :: "string \<Rightarrow> bool" where
  "trimmed s = (s = [] \<or> (\<not> is_space (hd s) \<and> \<not> is_space (last s)))"

text \<open>
  What a trace holds: the stories produced, and the rounds judged, each with its number,
  the story that was judged and the feedback.
\<close>

fun produced :: "event list \<Rightarrow> Story list" where
  "produced [] = []"
| "produced (StoryProduced s # es) = s # produced es"
| "produced (e # es) = produced es"

fun judged :: "event list \<Rightarrow> (nat \<times> Story \<times> JudgeFeedback) list" where
  "judged [] = []"
| "judged (StoryJudged r s fb # es) = (r, s, fb) # judged es"
| "judged (e # es) = judged es"

text \<open>
  A service that answers every attempt.
\<close>

definition never_fails :: "world \<Rightarrow> bool" where
  "never_fails w = (\<forall>n p. \<exists>c. remote w n p = Content c)"

text \<open>
  A judged round that reaches the threshold is the last event of the trace.
\<close>

fun threshold_last :: "event list \<Rightarrow> bool" where
  "threshold_last [] = True"
| "threshold_last (StoryJudged r s fb # es) =
     ((overall_score fb < JUDGE_THRESHOLD \<or> es = []) \<and> threshold_last es)"
| "threshold_last (e # es) = threshold_last es"

definition feedbacks :: "event list \<Rightarrow> JudgeFeedback list" where
  "feedbacks evs = map (\<lambda>(r, s, fb). fb) (judged evs)"

definition rounds :: "event list \<Rightarrow> nat list" where
  "rounds evs = map (\<lambda>(r, s, fb). r) (judged evs)"

text \<open>
  What one run of the loop over the iterations \<^verbatim>\<open>its\<close> leaves behind: the events \<^verbatim>\<open>evs\<close>
  it added to the trace and its result.
\<close>

definition loop_inv :: "nat list \<Rightarrow> Story \<Rightarrow> JudgeFeedback list \<Rightarrow> event list
    \<Rightarrow> (exception + Story \<times> JudgeFeedback list) \<Rightarrow> bool" where
  "loop_inv its story history evs res =
     ((its = [] \<longrightarrow> evs = [] \<and> res = Inr (story, history))
      \<and> length (produced evs) \<le> length (filter (\<lambda>i. i < MAX_REFINEMENT_ITERATIONS - 1) its)
      \<and> rounds evs = map Suc (take (length (judged evs)) its)
      \<and> (\<forall>s h. res = Inr (s, h) \<longrightarrow> h = history @ feedbacks evs)
      \<and> threshold_last evs
      \<and> ((\<exists>fb \<in> set (feedbacks evs). JUDGE_THRESHOLD \<le> overall_score fb) \<longrightarrow> (\<exists>s h. res = Inr (s, h)))
      \<and> (\<forall>s h. res = Inr (s, h) \<and> its \<noteq> [] \<and> MAX_REFINEMENT_ITERATIONS - 1 \<le> last its
            \<longrightarrow> (\<exists>pre r fb. evs = pre @ [StoryJudged r s fb]))
      \<and> (\<forall>s h. res = Inr (s, h) \<and> (\<forall>fb \<in> set (feedbacks evs). overall_score fb < JUDGE_THRESHOLD)
            \<longrightarrow> length (judged evs) = length its))"

text \<open>
  The versions of the stories count up from \<^verbatim>\<open>v\<close> in steps of one.
\<close>

fun versions_from :: "int \<Rightarrow> Story list \<Rightarrow> bool" where
  "versions_from v [] = True"
| "versions_from v (s # ss) = (version s = v \<and> versions_from (v + 1) ss)"

text \<open>
  The examples: sample values, and worlds whose service fails once, always returns no
  content, or always returns a feedback text with the score 8.
\<close>

definition letters_and_signs :: string where
  "letters_and_signs = ''ABCDEFGHIJKLMNOPQRSTUVWXYZabcdefghijklmnopqrstuvwxyz:_-.,!?()*''"

definition sample_request :: StoryRequest where
  "sample_request = \<lparr>raw_input = ''a brave dragon'', category = FANTASY, characters = [''dragon''],
     themes = [''courage''], setting = ''a cave'', tone = ''whimsical''\<rparr>"

definition sample_story :: Story where
  "sample_story = \<lparr>title = ''Tim'', content = ''Once.'', moral = ''Be kind.'', version = 1\<rparr>"

definition flaky_world :: world where
  "flaky_world = \<lparr>remote = (\<lambda>n p. if n = 0 then Raises ''timeout'' else Content (Some ''ok'')),
     calls = 0, sleeps = [], stdin = [], trace = []\<rparr>"

definition quiet_world :: world where
  "quiet_world = \<lparr>remote = (\<lambda>n p. Content None), calls = 0, sleeps = [], stdin = [], trace = []\<rparr>"

definition praising_world :: world where
  "praising_world = \<lparr>remote = (\<lambda>n p. Content (Some ''OVERALL_SCORE: 8'')), calls = 0, sleeps = [],
     stdin = [], trace = []\<rparr>"

definition untitled :: "int \<Rightarrow> Story" where
  "untitled v = \<lparr>title = ''Untitled Story'', content = [], moral = [], version = v\<rparr>"

definition middling :: JudgeFeedback where
  "middling = \<lparr>overall_score = 5, age_appropriateness = 5, engagement = 5,
        moral_clarity = 5, story_structure = 5, language_quality = 5,
        feedback = [], suggestions = []\<rparr>"

definition quiet_trace :: "event list" where
  "quiet_trace =
     [StoryProduced (untitled 1), StoryJudged 1 (untitled 1) middling,
      StoryProduced (untitled 2), StoryJudged 2 (untitled 2) middling,
      StoryProduced (untitled 3), StoryJudged 3 (untitled 3) middling,
      StoryProduced (untitled 4), StoryJudged 4 (untitled 4) middling,
      StoryProduced (untitled 5), StoryJudged 5 (untitled 5) middling]"

definition praised :: Story where
  "praised = \<lparr>title = ''Untitled Story'', content = ''OVERALL_SCORE: 8'', moral = [], version = 1\<rparr>"

definition praise :: JudgeFeedback where
  "praise = \<lparr>overall_score = 8, age_appropriateness = 5, engagement = 5,
        moral_clarity = 5, story_structure = 5, language_quality = 5,
        feedback = [], suggestions = []\<rparr>"

text \<open>
  A session of the interactive mode: the service answers \<^verbatim>\<open>a\<close> to every call but its fourth,
  which is the second continuation and carries a moral; the reader types \<^verbatim>\<open>1\<close>, then a line
  that is no choice, then \<^verbatim>\<open>2\<close>.  \<^verbatim>\<open>after_a\<close> and \<^verbatim>\<open>after_z\<close> are \<^verbatim>\<open>sample_story\<close> after the
  first and the second beat.
\<close>

definition choosing_world :: world where
  "choosing_world = \<lparr>remote = (\<lambda>n p. Content (Some (if n = 3 then ''Z MORAL: k'' else ''a''))),
     calls = 0, sleeps = [], stdin = [''1'', ''x'', ''2''], trace = []\<rparr>"

definition after_a :: Story where
  "after_a = \<lparr>title = ''Tim'', content = ''Once.'' @ [newline, newline] @ ''a'', moral = ''Be kind.'', version = 2\<rparr>"

definition after_z :: Story where
  "after_z = \<lparr>title = ''Tim'', content = ''Once.'' @ [newline, newline] @ ''a'' @ [newline, newline] @ ''Z MORAL: k'',
     moral = ''k'', version = 3\<rparr>"

text \<open>A proposal in the format the prompt asks for, whose two options are the same text.\<close>

definition twin_choices :: string where
  "twin_choices = ''CHOICE_1: a'' @ [newline] @ ''CHOICE_2: a''"

text \<open>
  \<^verbatim>\<open>contains f l s\<close>: the literal \<^verbatim>\<open>l\<close> matches somewhere in \<^verbatim>\<open>s\<close> under the flags \<^verbatim>\<open>f\<close>.
\<close>

fun contains :: "flags \<Rightarrow> string \<Rightarrow> string \<Rightarrow> bool" where
  "contains f l [] = lit_prefix f l []"
| "contains f l (c # cs) = (lit_prefix f l (c # cs) \<or> contains f l cs)"

text \<open>
  The six score lines of the format that the judge's prompt asks for: the first word of
  the label, the rest of the label, the pattern that \<^verbatim>\<open>parse_judge_response\<close> searches for
  it, and the field that receives the score.  A score line is the label, a colon, a
  blank and the value.
\<close>

definition score_labels :: "(string \<times> string \<times> regex \<times> (JudgeFeedback \<Rightarrow> int)) list" where
  "score_labels =
     [(''OVERALL'', ''_SCORE'', overall_rx, overall_score),
      (''AGE'', ''_APPROPRIATENESS'', age_rx, age_appropriateness),
      (''ENGAGEMENT'', [], engagement_rx, engagement),
      (''MORAL'', ''_CLARITY'', moral_clarity_rx, moral_clarity),
      (''STORY'', ''_STRUCTURE'', structure_rx, story_structure),
      (''LANGUAGE'', ''_QUALITY'', language_rx, language_quality)]"

text \<open>A feedback text with two score lines, and what is parsed from it.\<close>

definition scored :: string where
  "scored = ''OVERALL_SCORE: 0'' @ [newline] @ ''ENGAGEMENT: 12''"

definition scored_feedback :: JudgeFeedback where
  "scored_feedback = \<lparr>overall_score = 1, age_appropriateness = 5, engagement = 10,
        moral_clarity = 5, story_structure = 5, language_quality = 5,
        feedback = [], suggestions = []\<rparr>"

section \<open>Evaluation on concrete text\<close>

text \<open>
  The character functions on the characters that the examples below use, one equation
  for each character, so that the simplifier evaluates a pattern on a concrete text.
\<close>

lemma lower_char_table:
  "map lower_char (letters_and_signs @ ''0123456789 '' @ [newline]) =
     ''abcdefghijklmnopqrstuvwxyzabcdefghijklmnopqrstuvwxyz:_-.,!?()*0123456789 '' @ [newline]"
  unfolding letters_and_signs_def newline_def by code_simp

lemma is_space_table:
  "list_all (\<lambda>c. \<not> is_space c) (letters_and_signs @ ''0123456789'')"
  "list_all is_space ('' '' @ [newline])"
  unfolding letters_and_signs_def newline_def by code_simp+

lemma is_digit_table:
  "list_all (\<lambda>c. \<not> is_digit c) (letters_and_signs @ '' '' @ [newline])"
  "list_all is_digit ''0123456789''"
  unfolding letters_and_signs_def newline_def by code_simp+

lemmas char_eval =
  lower_char_table [unfolded letters_and_signs_def newline_def, simplified]
  is_space_table [unfolded letters_and_signs_def newline_def, simplified]
  is_digit_table [unfolded letters_and_signs_def newline_def, simplified]

lemmas text_eval = strip_def lstrip_def rstrip_def newline_def char_eval

lemmas regex_eval = re_search_def re_match_def re_sub_def re_findall_def match_at_def
  group1_strip_def group1_or_empty_def Plus_def colon_def re_I_def re_I_S_def re_NOFLAG_def
  seqs.simps

lemmas judge_eval = parse_judge_response_def find_score_def parse_suggestions_def
  overall_rx_def age_rx_def engagement_rx_def moral_clarity_rx_def structure_rx_def language_rx_def
  score_rx_def label2_def feedback_rx_def suggestions_rx_def bullet_rx_def
  clamp_int_def py_int_def nat_of_digits_def digit_val_def

lemmas story_eval = parse_story_response_def title_rx_def moral_rx_def story_rx_def story_prefix_rx_def

lemmas continuation_eval = parse_continuation_response_def continuation_rx_def
  continuation_moral_rx_def continuation_prefix_rx_def

lemma allowed_all_fixed:
  "list_all (\<lambda>t. lower (strip t) = t) allowed"
  by (simp add: allowed_def lower_def text_eval)

lemma allowed_fixed:
  "t \<in> set allowed \<Longrightarrow> lower (strip t) = t"
  using allowed_all_fixed by (simp add: list_all_iff)

section \<open>Properties of the extractors\<close>

lemma rmatch_group:
  "rmatch f r st k = Some res \<Longrightarrow>
     \<exists>st'. k st' = Some res \<and> (has_group st \<longrightarrow> has_group st') \<and> (sets_group r \<longrightarrow> has_group st')"
proof (induction f r st k arbitrary: res rule: rmatch.induct)
  case (11 f a b st k)
  from "11.prems" have "rmatch f a st (\<lambda>st'. rmatch f b st' k) = Some res" by simp
  from "11.IH"(2) [OF this] obtain st1 where
    1: "rmatch f b st1 k = Some res" "has_group st \<longrightarrow> has_group st1" "sets_group a \<longrightarrow> has_group st1"
    by blast
  from "11.IH"(1) [OF 1(1)] obtain st2 where
    2: "k st2 = Some res" "has_group st1 \<longrightarrow> has_group st2" "sets_group b \<longrightarrow> has_group st2"
    by blast
  from 1 2 show ?case by (intro exI [of _ st2]) simp
next
  case (12 f r p s g k)
  from "12.prems" "12.IH" [of res] show ?case
    by (fastforce simp: has_group_def split: prod.splits)
qed (fastforce simp: has_group_def split: if_splits option.splits)+

lemma match_at_group:
  "match_at f r p s = Some m \<Longrightarrow> sets_group r \<Longrightarrow> group1 m \<noteq> None"
  unfolding match_at_def
  by (auto split: option.splits prod.splits dest!: rmatch_group simp: has_group_def)

lemma search_from_group:
  "search_from f r p s = Some m \<Longrightarrow> sets_group r \<Longrightarrow> group1 m \<noteq> None"
  by (induction s arbitrary: p) (auto split: option.splits dest: match_at_group)

lemma re_search_group:
  "re_search r s f = Some m \<Longrightarrow> sets_group r \<Longrightarrow> \<exists>g. group1 m = Some g"
  unfolding re_search_def by (auto dest: search_from_group)

lemma sets_group_patterns:
  "sets_group title_rx" "sets_group moral_rx" "sets_group story_rx"
  "sets_group feedback_rx" "sets_group suggestions_rx"
  "sets_group (choice_rx l)" "sets_group continuation_rx" "sets_group continuation_moral_rx"
  by (simp_all add: title_rx_def moral_rx_def story_rx_def feedback_rx_def suggestions_rx_def
      choice_rx_def continuation_rx_def continuation_moral_rx_def)

lemma group1_strip_total:
  "re_search r s f = Some m \<Longrightarrow> sets_group r \<Longrightarrow> \<exists>g. group1_strip m = Inr (strip g) \<and> group1 m = Some g"
  by (auto dest: re_search_group simp: group1_strip_def)

lemma optional_group_total:
  "sets_group r \<Longrightarrow> \<exists>t. (case re_search r s f of None \<Rightarrow> Inr d | Some m \<Rightarrow> group1_strip m) = Inr t"
  by (cases "re_search r s f") (auto dest: group1_strip_total)

lemma and_then_Inr [simp]: "and_then (Inr v) body = body v"
  by (simp add: and_then_def)

lemma and_then_Inl [simp]: "and_then (Inl e) body = Inl e"
  by (simp add: and_then_def)

lemma parse_story_response_total:
  "\<exists>t c m. parse_story_response response fallback = Inr (t, c, m)"
proof -
  obtain m where m: "(case re_search moral_rx response re_I_S of None \<Rightarrow> Inr [] | Some m \<Rightarrow> group1_strip m) = Inr m"
    using optional_group_total [OF sets_group_patterns(2)] by blast
  obtain st where st: "(case re_search story_rx response re_I of None \<Rightarrow> Inr [] | Some m \<Rightarrow> group1_strip m) = Inr st"
    using optional_group_total [OF sets_group_patterns(3)] by blast
  show ?thesis
  proof (cases "re_search title_rx response re_I")
    case None
    then show ?thesis
      unfolding parse_story_response_def Let_def m st by simp
  next
    case (Some tm)
    from group1_strip_total [OF Some sets_group_patterns(1)] obtain g where "group1_strip tm = Inr (strip g)"
      by blast
    then show ?thesis
      unfolding parse_story_response_def Let_def m st Some by simp
  qed
qed

lemma clamp_int_range:
  "lo \<le> d \<Longrightarrow> d \<le> hi \<Longrightarrow> lo \<le> clamp_int v lo hi d \<and> clamp_int v lo hi d \<le> hi"
  unfolding clamp_int_def by (auto split: option.splits)

lemma find_score_range:
  "1 \<le> find_score text rx 5 \<and> find_score text rx 5 \<le> 10"
  unfolding find_score_def using clamp_int_range [of 1 5 10] by (auto split: option.splits)

lemma parse_suggestions_total:
  "\<exists>xs. parse_suggestions text = Inr xs"
proof (cases "re_search suggestions_rx text re_I_S")
  case None
  then show ?thesis by (simp add: parse_suggestions_def)
next
  case (Some m)
  from group1_strip_total [OF Some sets_group_patterns(5)] obtain g where "group1_strip m = Inr (strip g)"
    by blast
  then show ?thesis
    unfolding parse_suggestions_def Some Let_def by simp
qed

lemma parse_judge_response_total:
  "\<exists>fb sugg. parse_judge_response text = Inr
      \<lparr>overall_score = find_score text overall_rx 5,
       age_appropriateness = find_score text age_rx 5,
       engagement = find_score text engagement_rx 5,
       moral_clarity = find_score text moral_clarity_rx 5,
       story_structure = find_score text structure_rx 5,
       language_quality = find_score text language_rx 5,
       feedback = fb, suggestions = sugg\<rparr>"
proof -
  obtain fb where fb: "(case re_search feedback_rx text re_I_S of None \<Rightarrow> Inr [] | Some m \<Rightarrow> group1_strip m) = Inr fb"
    using optional_group_total [OF sets_group_patterns(4)] by blast
  obtain sugg where sugg: "parse_suggestions text = Inr sugg"
    using parse_suggestions_total by blast
  show ?thesis
    unfolding parse_judge_response_def Let_def fb sugg by simp
qed

lemma item_in_range:
  "i < length xs \<Longrightarrow> item xs i = Inr (xs ! i)"
  by (simp add: item_def)

lemma parse_choice_proposal_total:
  "\<exists>c1 c2. parse_choice_proposal text = Inr (c1, c2) \<and> c1 \<noteq> [] \<and> c2 \<noteq> []"
proof -
  obtain c1 where c1: "(case re_search (choice_rx ''CHOICE_1'') text re_I of None \<Rightarrow> Inr [] | Some m \<Rightarrow> group1_strip m) = Inr c1"
    using optional_group_total [OF sets_group_patterns(6)] by blast
  obtain c2 where c2: "(case re_search (choice_rx ''CHOICE_2'') text re_I of None \<Rightarrow> Inr [] | Some m \<Rightarrow> group1_strip m) = Inr c2"
    using optional_group_total [OF sets_group_patterns(6)] by blast
  have d: "default_choice_1 \<noteq> []" "default_choice_2 \<noteq> []"
    by (simp_all add: default_choice_1_def default_choice_2_def)
  show ?thesis
    unfolding parse_choice_proposal_def c1 c2 Let_def using d
    by (auto simp: item_def)
qed

lemma parse_continuation_response_total:
  "\<exists>c m. parse_continuation_response text = Inr (c, m)"
proof -
  obtain m where m: "(case re_search continuation_moral_rx text re_I_S of None \<Rightarrow> Inr [] | Some m \<Rightarrow> group1_strip m) = Inr m"
    using optional_group_total [OF sets_group_patterns(8)] by blast
  show ?thesis
  proof (cases "re_search continuation_rx text re_I_S")
    case None
    then show ?thesis
      unfolding parse_continuation_response_def Let_def m by simp
  next
    case (Some cm)
    from group1_strip_total [OF Some sets_group_patterns(7)] obtain g where "group1_strip cm = Inr (strip g)"
      by blast
    then show ?thesis
      unfolding parse_continuation_response_def Let_def m Some by simp
  qed
qed

lemma unpack2_split_once:
  "sep \<in> set s \<Longrightarrow> \<exists>a b. unpack2 (split_once sep s) = Inr (a, b)"
  by (simp add: unpack2_def split_once_def)

lemma analyzer_lines_total:
  "\<exists>d. analyzer_lines ls parsed = Inr d"
proof (induction ls arbitrary: parsed)
  case Nil
  then show ?case by simp
next
  case (Cons line rest)
  show ?case
  proof (cases "CHR '':'' \<in> set line")
    case True
    from unpack2_split_once [OF True] obtain a b where "unpack2 (split_once CHR '':'' line) = Inr (a, b)"
      by blast
    with True Cons.IH show ?thesis by simp
  next
    case False
    with Cons.IH show ?thesis by simp
  qed
qed

lemma parse_analyzer_response_total:
  "\<exists>d. parse_analyzer_response response = Inr d"
  unfolding parse_analyzer_response_def by (rule analyzer_lines_total)

lemma rstrip_prefix: "\<exists>v. s = rstrip s @ v \<and> (\<forall>c \<in> set v. is_space c)"
proof -
  have "rev s = takeWhile is_space (rev s) @ dropWhile is_space (rev s)" by simp
  then have "s = rev (dropWhile is_space (rev s)) @ rev (takeWhile is_space (rev s))"
    by (metis rev_append rev_rev_ident)
  moreover have "\<forall>c \<in> set (rev (takeWhile is_space (rev s))). is_space c"
    by (auto dest: set_takeWhileD)
  ultimately show ?thesis unfolding rstrip_def by blast
qed

lemma rstrip_last: "rstrip s \<noteq> [] \<Longrightarrow> \<not> is_space (last (rstrip s))"
  unfolding rstrip_def by (simp add: last_rev hd_dropWhile)

lemma rstrip_id: "s = [] \<or> \<not> is_space (last s) \<Longrightarrow> rstrip s = s"
  unfolding rstrip_def by (cases "rev s") (auto simp: last_rev [symmetric])

lemma lstrip_id: "s = [] \<or> \<not> is_space (hd s) \<Longrightarrow> lstrip s = s"
  unfolding lstrip_def by (cases s) auto

lemma lstrip_hd: "lstrip s \<noteq> [] \<Longrightarrow> \<not> is_space (hd (lstrip s))"
  unfolding lstrip_def by (simp add: hd_dropWhile)

lemma strip_trimmed: "trimmed s \<Longrightarrow> strip s = s"
  unfolding trimmed_def strip_def by (auto simp: lstrip_id rstrip_id)

lemma trimmed_strip: "trimmed (strip s)"
proof (cases "strip s = []")
  case True
  then show ?thesis by (simp add: trimmed_def)
next
  case False
  let ?t = "lstrip s"
  from False have ne: "rstrip ?t \<noteq> []" by (simp add: strip_def)
  obtain v where v: "?t = rstrip ?t @ v" using rstrip_prefix by blast
  with ne have "?t \<noteq> []" by auto
  then have "\<not> is_space (hd ?t)" by (rule lstrip_hd)
  moreover from v ne have "hd ?t = hd (rstrip ?t)" by (metis hd_append2)
  ultimately have "\<not> is_space (hd (strip s))" by (simp add: strip_def)
  moreover from ne have "\<not> is_space (last (strip s))" unfolding strip_def by (rule rstrip_last)
  ultimately show ?thesis by (simp add: trimmed_def)
qed

lemma trimmed_append:
  "trimmed a \<Longrightarrow> a \<noteq> [] \<Longrightarrow> trimmed b \<Longrightarrow> b \<noteq> [] \<Longrightarrow> trimmed (a @ m @ b)"
  unfolding trimmed_def by auto

lemma commit_content_plain:
  assumes "trimmed (content s)" "content s \<noteq> []" "trimmed c" "c \<noteq> []"
  shows "content (commit_continuation s c m) = content s @ [newline, newline] @ c"
proof -
  from assms have "rstrip (content s) = content s" "strip c = c"
    by (auto simp: trimmed_def rstrip_id strip_trimmed)
  moreover from assms have "trimmed (content s @ [newline, newline] @ c)"
    by (rule trimmed_append)
  ultimately show ?thesis
    unfolding commit_continuation_def Let_def by (simp add: strip_trimmed)
qed

lemma attempts_range: "[1..<API_MAX_RETRIES + 1] = [1, 2, 3]"
  by (simp add: API_MAX_RETRIES_def upt_rec)

lemma exhausted_message_text:
  "exhausted_message (Some e) = ''OpenAI API call failed after 3 attempts: '' @ e"
  by (simp add: exhausted_message_def API_MAX_RETRIES_def str_int_def digit_char_def)

lemma call_model_cases:
  "call_model pr w =
    (case remote w (calls w) pr of
       Content c \<Rightarrow> (Inr (case c of None \<Rightarrow> [] | Some s \<Rightarrow> s), w\<lparr>calls := calls w + 1\<rparr>)
     | Raises e1 \<Rightarrow>
        (case remote w (calls w + 1) pr of
           Content c \<Rightarrow> (Inr (case c of None \<Rightarrow> [] | Some s \<Rightarrow> s),
                          w\<lparr>calls := calls w + 2, sleeps := sleeps w @ [API_RETRY_BACKOFF_SECONDS * 1]\<rparr>)
         | Raises e2 \<Rightarrow>
            (case remote w (calls w + 2) pr of
               Content c \<Rightarrow> (Inr (case c of None \<Rightarrow> [] | Some s \<Rightarrow> s),
                  w\<lparr>calls := calls w + 3,
                     sleeps := sleeps w @ [API_RETRY_BACKOFF_SECONDS * 1, API_RETRY_BACKOFF_SECONDS * 2]\<rparr>)
             | Raises e3 \<Rightarrow> (Inl (RuntimeError (''OpenAI API call failed after 3 attempts: '' @ e3)),
                  w\<lparr>calls := calls w + 3,
                     sleeps := sleeps w @ [API_RETRY_BACKOFF_SECONDS * 1, API_RETRY_BACKOFF_SECONDS * 2]\<rparr>))))"
  unfolding call_model_def attempts_range
  by (simp add: Let_def exhausted_message_text API_MAX_RETRIES_def split: outcome.splits)

lemma produced_append [simp]: "produced (xs @ ys) = produced xs @ produced ys"
  by (induction xs rule: produced.induct) simp_all

lemma judged_append [simp]: "judged (xs @ ys) = judged xs @ judged ys"
  by (induction xs rule: judged.induct) simp_all

lemma call_model_frame:
  "call_model pr w = (res, w1) \<Longrightarrow>
     remote w1 = remote w \<and> trace w1 = trace w \<and> stdin w1 = stdin w \<and> calls w \<le> calls w1"
  unfolding call_model_cases by (auto split: outcome.splits)

lemma call_model_never_fails:
  "never_fails w \<Longrightarrow> \<exists>c. call_model pr w = (Inr c, w\<lparr>calls := calls w + 1\<rparr>)"
proof -
  assume "never_fails w"
  then obtain c where "remote w (calls w) pr = Content c"
    unfolding never_fails_def by blast
  then show ?thesis unfolding call_model_cases by simp
qed

lemma judge_story_step:
  assumes "judge_story story request r history w = (res, w1)"
  shows "remote w1 = remote w \<and> stdin w1 = stdin w
     \<and> ((\<exists>e. res = Inl e \<and> trace w1 = trace w)
        \<or> (\<exists>fb. res = Inr fb \<and> trace w1 = trace w @ [StoryJudged r story fb]))
     \<and> (never_fails w \<longrightarrow> (\<exists>fb. res = Inr fb))"
proof (cases "call_model (JudgePrompt story request r history) w")
  case (Pair cres w0)
  note frame = call_model_frame [OF Pair]
  have p: "\<exists>fb. parse_judge_response resp = Inr fb" for resp
    using parse_judge_response_total [of resp] by blast
  show ?thesis
  proof (cases cres)
    case (Inl e)
    with Pair assms frame call_model_never_fails [of w "JudgePrompt story request r history"]
    show ?thesis by (auto simp: judge_story_def)
  next
    case (Inr resp)
    from p obtain fb where "parse_judge_response resp = Inr fb" by blast
    with Inr Pair assms frame show ?thesis
      by (auto simp: judge_story_def record_event_def intro: p)
  qed
qed

lemma story_step:
  assumes "call_model pr w = (cres, w0)"
    and "(case cres of Inl e \<Rightarrow> (Inl e, w0)
          | Inr response \<Rightarrow>
             (case parse_story_response response fb_title of
                Inl e \<Rightarrow> (Inl e, w0)
              | Inr (t, c, m) \<Rightarrow>
                 (let story = \<lparr>title = t, content = c, moral = m, version = v\<rparr>
                  in (Inr story, record_event (StoryProduced story) w0)))) = (res, w1)"
  shows "remote w1 = remote w \<and> stdin w1 = stdin w
     \<and> ((\<exists>e. res = Inl e \<and> trace w1 = trace w)
        \<or> (\<exists>s. res = Inr s \<and> version s = v \<and> trace w1 = trace w @ [StoryProduced s]))
     \<and> (never_fails w \<longrightarrow> (\<exists>s. res = Inr s))"
proof -
  note frame = call_model_frame [OF assms(1)]
  show ?thesis
  proof (cases cres)
    case (Inl e)
    with assms frame call_model_never_fails [of w pr]
    show ?thesis by auto
  next
    case (Inr resp)
    obtain t c m where "parse_story_response resp fb_title = Inr (t, c, m)"
      using parse_story_response_total by blast
    with Inr assms frame show ?thesis
      by (auto simp: record_event_def Let_def)
  qed
qed

lemma generate_story_step:
  assumes "generate_story request ctx w = (res, w1)"
  shows "remote w1 = remote w \<and> stdin w1 = stdin w
     \<and> ((\<exists>e. res = Inl e \<and> trace w1 = trace w)
        \<or> (\<exists>s. res = Inr s \<and> version s = 1 \<and> trace w1 = trace w @ [StoryProduced s]))
     \<and> (never_fails w \<longrightarrow> (\<exists>s. res = Inr s))"
proof (cases "call_model (StoryPrompt request ctx) w")
  case (Pair cres w0)
  show ?thesis
    by (rule story_step [OF Pair]) (use assms Pair in \<open>simp add: generate_story_def split: sum.splits\<close>)
qed

lemma refine_story_step:
  assumes "refine_story story request history w = (res, w1)"
  shows "remote w1 = remote w \<and> stdin w1 = stdin w
     \<and> ((\<exists>e. res = Inl e \<and> trace w1 = trace w)
        \<or> (\<exists>s. res = Inr s \<and> version s = version story + 1 \<and> trace w1 = trace w @ [StoryProduced s]))
     \<and> (never_fails w \<longrightarrow> (\<exists>s. res = Inr s))"
proof (cases "call_model (RefinePrompt story request (latest history)) w")
  case (Pair cres w0)
  show ?thesis
    by (rule story_step [OF Pair]) (use assms Pair in \<open>simp add: refine_story_def split: sum.splits\<close>)
qed

lemma refine_loop_inv:
  "refine_loop its request story history w = (res, w') \<Longrightarrow>
     \<exists>evs. trace w' = trace w @ evs \<and> remote w' = remote w \<and> loop_inv its story history evs res
        \<and> (never_fails w \<longrightarrow> (\<exists>s h. res = Inr (s, h)))"
proof (induction its arbitrary: story history w)
  case Nil
  then show ?case by (auto simp: loop_inv_def rounds_def feedbacks_def)
next
  case (Cons i rest)
  obtain jres w1 where j: "judge_story story request (i + 1) history w = (jres, w1)"
    by (cases "judge_story story request (i + 1) history w")
  note js = judge_story_step [OF j]
  show ?case
  proof (cases jres)
    case (Inl e)
    with j js Cons.prems have "res = Inl e" "w' = w1" "trace w1 = trace w" "remote w1 = remote w" "\<not> never_fails w"
      by auto
    then show ?thesis
      by (intro exI [of _ "[]"]) (simp add: loop_inv_def rounds_def feedbacks_def)
  next
    case (Inr fb)
    with js have t1: "trace w1 = trace w @ [StoryJudged (i + 1) story fb]" and r1: "remote w1 = remote w"
      by auto
    let ?e = "StoryJudged (i + 1) story fb"
    show ?thesis
    proof (cases "JUDGE_THRESHOLD \<le> overall_score fb")
      case True
      with Inr j Cons.prems have "res = Inr (story, history @ [fb])" "w' = w1"
        by auto
      with t1 r1 True show ?thesis
        by (intro exI [of _ "[?e]"]) (simp add: loop_inv_def rounds_def feedbacks_def)
    next
      case False
      show ?thesis
      proof (cases "i < MAX_REFINEMENT_ITERATIONS - 1")
        case True
        obtain rres w2 where r: "refine_story story request (history @ [fb]) w1 = (rres, w2)"
          by (cases "refine_story story request (history @ [fb]) w1")
        note rs = refine_story_step [OF r]
        from r1 have nf1: "never_fails w1 = never_fails w" by (simp add: never_fails_def)
        show ?thesis
        proof (cases rres)
          case (Inl e)
          with Inr j r rs True False Cons.prems
          have "res = Inl e" "w' = w2" "trace w2 = trace w1" "remote w2 = remote w1" "\<not> never_fails w1"
            by auto
          with t1 r1 nf1 False show ?thesis
            by (intro exI [of _ "[?e]"]) (simp add: loop_inv_def rounds_def feedbacks_def)
        next
          case (Inr refined)
          with rs have t2: "trace w2 = trace w1 @ [StoryProduced refined]" and r2: "remote w2 = remote w1"
            by auto
          from \<open>jres = Inr fb\<close> Inr j r True False Cons.prems
          have "refine_loop rest request refined (history @ [fb]) w2 = (res, w')"
            by auto
          from Cons.IH [OF this] obtain evs where
            evs: "trace w' = trace w2 @ evs" "remote w' = remote w2" "loop_inv rest refined (history @ [fb]) evs res"
              "never_fails w2 \<longrightarrow> (\<exists>s h. res = Inr (s, h))"
            by blast
          from r1 r2 have nf2: "never_fails w2 = never_fails w" by (simp add: never_fails_def)
          have "loop_inv (i # rest) story history (?e # StoryProduced refined # evs) res"
            using evs(3) True False
            unfolding loop_inv_def rounds_def feedbacks_def
            by (auto simp: Cons_eq_append_conv)
          with evs t1 t2 r1 r2 nf2 show ?thesis
            by (intro exI [of _ "?e # StoryProduced refined # evs"]) simp
        qed
      next
        case nolimit: False
        from Inr j False nolimit Cons.prems
        have "refine_loop rest request story (history @ [fb]) w1 = (res, w')"
          by auto
        from Cons.IH [OF this] obtain evs where
          evs: "trace w' = trace w1 @ evs" "remote w' = remote w1" "loop_inv rest story (history @ [fb]) evs res"
            "never_fails w1 \<longrightarrow> (\<exists>s h. res = Inr (s, h))"
          by blast
        from r1 have nf1: "never_fails w1 = never_fails w" by (simp add: never_fails_def)
        have "loop_inv (i # rest) story history (?e # evs) res"
          using evs(3) False nolimit
          unfolding loop_inv_def rounds_def feedbacks_def
          by (auto simp: Cons_eq_append_conv)
        with evs t1 r1 nf1 show ?thesis
          by (intro exI [of _ "?e # evs"]) simp
      qed
    qed
  qed
qed

lemma refine_loop_versions:
  "refine_loop its request story history w = (res, w') \<Longrightarrow>
     \<exists>evs. trace w' = trace w @ evs \<and> versions_from (version story + 1) (produced evs)"
proof (induction its arbitrary: story history w)
  case Nil
  then show ?case by auto
next
  case (Cons i rest)
  obtain jres w1 where j: "judge_story story request (i + 1) history w = (jres, w1)"
    by (cases "judge_story story request (i + 1) history w")
  note js = judge_story_step [OF j]
  show ?case
  proof (cases jres)
    case (Inl e)
    with j js Cons.prems show ?thesis by auto
  next
    case (Inr fb)
    with js have t1: "trace w1 = trace w @ [StoryJudged (i + 1) story fb]" by auto
    let ?e = "StoryJudged (i + 1) story fb"
    consider (pass) "JUDGE_THRESHOLD \<le> overall_score fb"
      | (refine) "\<not> JUDGE_THRESHOLD \<le> overall_score fb" "i < MAX_REFINEMENT_ITERATIONS - 1"
      | (keep) "\<not> JUDGE_THRESHOLD \<le> overall_score fb" "\<not> i < MAX_REFINEMENT_ITERATIONS - 1"
      by blast
    then show ?thesis
    proof cases
      case pass
      with Inr j Cons.prems t1 show ?thesis by auto
    next
      case refine
      obtain rres w2 where r: "refine_story story request (history @ [fb]) w1 = (rres, w2)"
        by (cases "refine_story story request (history @ [fb]) w1")
      note rs = refine_story_step [OF r]
      show ?thesis
      proof (cases rres)
        case (Inl e)
        with \<open>jres = Inr fb\<close> j r rs refine Cons.prems t1 show ?thesis by auto
      next
        case (Inr refined)
        with rs have t2: "trace w2 = trace w1 @ [StoryProduced refined]"
          and v: "version refined = version story + 1"
          by auto
        from \<open>jres = Inr fb\<close> Inr j r refine Cons.prems
        have "refine_loop rest request refined (history @ [fb]) w2 = (res, w')"
          by auto
        from Cons.IH [OF this] obtain evs where
          "trace w' = trace w2 @ evs" "versions_from (version refined + 1) (produced evs)"
          by blast
        with t1 t2 v show ?thesis
          by (intro exI [of _ "?e # StoryProduced refined # evs"]) simp
      qed
    next
      case keep
      with Inr j Cons.prems
      have "refine_loop rest request story (history @ [fb]) w1 = (res, w')"
        by auto
      from Cons.IH [OF this] obtain evs where
        "trace w' = trace w1 @ evs" "versions_from (version story + 1) (produced evs)"
        by blast
      with t1 show ?thesis
        by (intro exI [of _ "?e # evs"]) simp
    qed
  qed
qed

lemma threshold_last_append:
  "threshold_last (pre @ StoryJudged r s fb # post) \<Longrightarrow> JUDGE_THRESHOLD \<le> overall_score fb \<Longrightarrow> post = []"
  by (induction pre rule: threshold_last.induct) auto

lemma iterations_range: "[0..<MAX_REFINEMENT_ITERATIONS] = [0, 1, 2, 3, 4]"
  by (simp add: MAX_REFINEMENT_ITERATIONS_def upt_rec)

lemma rounds_upto:
  assumes "rounds evs = map Suc (take (length (judged evs)) [0, 1, 2, 3, 4])"
  shows "rounds evs = [1..<Suc (length (judged evs))] \<and> length (judged evs) \<le> 5"
proof -
  have l: "length (rounds evs) = length (judged evs)" by (simp add: rounds_def)
  from assms have "length (rounds evs) = length (map Suc (take (length (judged evs)) [0, 1, 2, 3, 4::nat]))"
    by simp
  then have "length (rounds evs) = min (length (judged evs)) 5"
    by simp
  with l have le: "length (judged evs) \<le> 5" by simp
  have "[0, 1, 2, 3, 4] = [0..<5::nat]" by (simp add: upt_rec)
  with assms le have "rounds evs = map Suc [0..<length (judged evs)]"
    by (simp add: take_upt)
  then show ?thesis using le by (simp add: map_Suc_upt)
qed

lemma generate_and_refine_run:
  assumes "generate_and_refine_story request w = (res, w')"
  shows "(\<exists>e. res = Inl e \<and> trace w' = trace w \<and> \<not> never_fails w)
     \<or> (\<exists>draft evs. version draft = 1 \<and> trace w' = trace w @ StoryProduced draft # evs
           \<and> loop_inv [0, 1, 2, 3, 4] draft [] evs res
           \<and> versions_from 2 (produced evs)
           \<and> (never_fails w \<longrightarrow> (\<exists>s h. res = Inr (s, h))))"
proof -
  obtain gres w1 where g: "generate_story request None w = (gres, w1)"
    by (cases "generate_story request None w")
  note gs = generate_story_step [OF g]
  show ?thesis
  proof (cases gres)
    case (Inl e)
    with g gs assms show ?thesis
      by (auto simp: generate_and_refine_story_def)
  next
    case (Inr draft)
    with gs have t1: "trace w1 = trace w @ [StoryProduced draft]" and v: "version draft = 1"
      and r1: "remote w1 = remote w"
      by auto
    from Inr g assms have run: "refine_loop [0, 1, 2, 3, 4] request draft [] w1 = (res, w')"
      by (simp add: generate_and_refine_story_def iterations_range)
    from refine_loop_inv [OF run] obtain evs where
      evs: "trace w' = trace w1 @ evs" "loop_inv [0, 1, 2, 3, 4] draft [] evs res"
        "never_fails w1 \<longrightarrow> (\<exists>s h. res = Inr (s, h))"
      by blast
    from refine_loop_versions [OF run] obtain evs' where
      evs': "trace w' = trace w1 @ evs'" "versions_from (version draft + 1) (produced evs')"
      by blast
    from evs(1) evs'(1) have "evs' = evs" by simp
    with evs' v have vs: "versions_from 2 (produced evs)" by simp
    from r1 have "never_fails w1 = never_fails w" by (simp add: never_fails_def)
    with evs t1 v vs show ?thesis by auto
  qed
qed

lemma parse_continuation_trimmed:
  assumes "parse_continuation_response text = Inr (c, m)"
  shows "trimmed c \<and> trimmed m"
proof -
  have e: "trimmed []" by (simp add: trimmed_def)
  have "trimmed c"
    using assms unfolding parse_continuation_response_def Let_def and_then_def
    by (auto split: sum.splits option.splits simp: trimmed_strip)
  moreover have "trimmed m"
    using assms e unfolding parse_continuation_response_def Let_def and_then_def group1_strip_def
    by (auto split: sum.splits option.splits simp: trimmed_strip)
  ultimately show ?thesis by simp
qed

lemma parse_story_empty: "parse_story_response [] fb = Inr (fb, [], [])"
  by (simp add: story_eval regex_eval text_eval)

lemma parse_judge_empty: "parse_judge_response [] = Inr middling"
  by (simp add: middling_def judge_eval regex_eval)

lemma call_quiet: "remote w = (\<lambda>n p. Content None) \<Longrightarrow> call_model pr w = (Inr [], w\<lparr>calls := calls w + 1\<rparr>)"
  unfolding call_model_cases by simp

lemma quiet_run:
  "generate_and_refine_story sample_request quiet_world =
     (Inr (untitled 5, [middling, middling, middling, middling, middling]),
      quiet_world\<lparr>calls := 10, trace :=
        [StoryProduced (untitled 1), StoryJudged 1 (untitled 1) middling,
         StoryProduced (untitled 2), StoryJudged 2 (untitled 2) middling,
         StoryProduced (untitled 3), StoryJudged 3 (untitled 3) middling,
         StoryProduced (untitled 4), StoryJudged 4 (untitled 4) middling,
         StoryProduced (untitled 5), StoryJudged 5 (untitled 5) middling]\<rparr>)"
  unfolding generate_and_refine_story_def iterations_range
  by (simp add: generate_story_def judge_story_def Let_def
      refine_story_def call_quiet parse_story_empty parse_judge_empty quiet_world_def record_event_def
      untitled_def JUDGE_THRESHOLD_def MAX_REFINEMENT_ITERATIONS_def middling_def)

lemma quiet_run':
  "generate_and_refine_story sample_request quiet_world =
     (Inr (untitled 5, [middling, middling, middling, middling, middling]),
      quiet_world\<lparr>calls := 10, trace := quiet_trace\<rparr>)"
  unfolding quiet_trace_def by (rule quiet_run)

lemma parse_story_praise:
  "parse_story_response ''OVERALL_SCORE: 8'' fb = Inr (fb, ''OVERALL_SCORE: 8'', [])"
  by (simp add: story_eval regex_eval text_eval)

lemma parse_judge_praise: "parse_judge_response ''OVERALL_SCORE: 8'' = Inr praise"
  by (simp add: praise_def judge_eval regex_eval text_eval)

lemma call_praising:
  "remote w = (\<lambda>n p. Content (Some ''OVERALL_SCORE: 8'')) \<Longrightarrow>
     call_model pr w = (Inr ''OVERALL_SCORE: 8'', w\<lparr>calls := calls w + 1\<rparr>)"
  unfolding call_model_cases by simp

lemma praising_run:
  "generate_and_refine_story sample_request praising_world =
     (Inr (praised, [praise]),
      praising_world\<lparr>calls := 2, trace := [StoryProduced praised, StoryJudged 1 praised praise]\<rparr>)"
  unfolding generate_and_refine_story_def iterations_range
  by (simp add: generate_story_def judge_story_def Let_def call_praising parse_story_praise
      parse_judge_praise praising_world_def record_event_def praised_def JUDGE_THRESHOLD_def praise_def)

section \<open>The interactive mode\<close>

lemma steps_range: "[1..<3 + 1] = [1, 2, 3::nat]"
  by (simp add: upt_rec)

lemma propose_frame:
  "propose_next_choices story request k n w = (res, w1) \<Longrightarrow> trace w1 = trace w \<and> stdin w1 = stdin w"
  unfolding propose_next_choices_def
  by (auto split: prod.splits sum.splits dest: call_model_frame)

lemma continuation_frame:
  "generate_continuation story request chosen k n w = (res, w1) \<Longrightarrow> trace w1 = trace w \<and> stdin w1 = stdin w"
  unfolding generate_continuation_def
  by (auto split: prod.splits sum.splits dest: call_model_frame)

lemma await_frame:
  "await_selection w = (res, w1) \<Longrightarrow> trace w1 = trace w \<and> calls w1 = calls w \<and> remote w1 = remote w"
  unfolding await_selection_def by (auto split: prod.splits)

lemmas choice_eval = parse_choice_proposal_def choice_rx_def numbered_rx_def numbered_lines_def
  splitlines_def linebreaks_def item_def

lemma call_choosing:
  "remote w = (\<lambda>n p. Content (Some (if n = 3 then ''Z MORAL: k'' else ''a''))) \<Longrightarrow>
     call_model pr w = (Inr (if calls w = 3 then ''Z MORAL: k'' else ''a''), w\<lparr>calls := calls w + 1\<rparr>)"
  unfolding call_model_cases by simp

lemma parse_choice_a: "parse_choice_proposal ''a'' = Inr (default_choice_1, default_choice_2)"
  by (simp add: choice_eval regex_eval text_eval)

lemma parse_continuation_a: "parse_continuation_response ''a'' = Inr (''a'', [])"
  by (simp add: continuation_eval regex_eval text_eval)

lemma parse_continuation_z: "parse_continuation_response ''Z MORAL: k'' = Inr (''Z MORAL: k'', ''k'')"
  by (simp add: continuation_eval regex_eval text_eval)

lemma commit_a: "commit_continuation sample_story ''a'' [] = after_a"
  by (simp add: commit_continuation_def sample_story_def after_a_def text_eval)

lemma commit_z: "commit_continuation after_a ''Z MORAL: k'' ''k'' = after_z"
  by (simp add: commit_continuation_def after_z_def after_a_def text_eval)

lemma defaults_differ: "default_choice_1 \<noteq> default_choice_2"
  by (simp add: default_choice_1_def default_choice_2_def)

section \<open>The matcher on texts of a given form\<close>

text \<open>
  From here on a pattern is unfolded one element at a time, by \<^verbatim>\<open>rmatch_seqs_Cons\<close>.
\<close>

declare seqs.simps [simp del]

lemma rmatch_seqs_Nil: "rmatch f (seqs []) st k = k st"
  by (simp add: seqs.simps)

lemma rmatch_seqs_Cons: "rmatch f (seqs (r # rs)) st k = rmatch f r st (\<lambda>st'. rmatch f (seqs rs) st' k)"
  by (simp add: seqs.simps)

lemma star_stop:
  "s = [] \<or> \<not> atom_ok f a (hd s) \<Longrightarrow> rmatch f (Star a) (p, s, g) k = k (p, s, g)"
  by (cases s) auto

lemma star_greedy:
  "k (p + length (takeWhile (atom_ok f a) s), dropWhile (atom_ok f a) s, g) = Some x \<Longrightarrow>
     rmatch f (Star a) (p, s, g) k = Some x"
  by (induction s arbitrary: p) auto

lemma star_lazy:
  "\<forall>c \<in> set u. atom_ok f a c \<Longrightarrow> \<forall>i < length u. k (p + i, drop i u @ r, g) = None \<Longrightarrow>
     k (p + length u, r, g) = Some x \<Longrightarrow> rmatch f (StarLazy a) (p, u @ r, g) k = Some x"
proof (induction u arbitrary: p)
  case Nil
  then show ?case by (cases r) auto
next
  case (Cons c u)
  from Cons.prems(2) have 0: "k (p, c # u @ r, g) = None" by fastforce
  have "\<forall>i < length u. k (Suc p + i, drop i u @ r, g) = None"
  proof (intro allI impI)
    fix i assume "i < length u"
    with Cons.prems(2) [rule_format, of "Suc i"] show "k (Suc p + i, drop i u @ r, g) = None" by simp
  qed
  with Cons.IH [of "Suc p"] Cons.prems have "rmatch f (StarLazy a) (Suc p, u @ r, g) k = Some x"
    by simp
  with 0 Cons.prems(1) show ?case by simp
qed

lemma search_skip:
  "\<forall>i < length u. match_at f rx (p + i) (drop i u @ r) = None \<Longrightarrow>
     search_from f rx p (u @ r) = search_from f rx (p + length u) r"
proof (induction u arbitrary: p)
  case Nil
  then show ?case by simp
next
  case (Cons c u)
  from Cons.prems have 0: "match_at f rx p (c # u @ r) = None" by fastforce
  have "\<forall>i < length u. match_at f rx (Suc p + i) (drop i u @ r) = None"
  proof (intro allI impI)
    fix i assume "i < length u"
    with Cons.prems [rule_format, of "Suc i"] show "match_at f rx (Suc p + i) (drop i u @ r) = None" by simp
  qed
  from Cons.IH [OF this] 0 show ?case by simp
qed

lemma match_at_label_fail:
  "\<not> lit_prefix f a s \<Longrightarrow> \<not> lit_prefix f b s \<Longrightarrow> match_at f (seqs (Alt (Lit a) (Lit b) # rs)) p s = None"
  by (simp add: match_at_def rmatch_seqs_Cons)

lemma match_at_lit_fail:
  "\<not> lit_prefix f a s \<Longrightarrow> match_at f (seqs (Lit a # rs)) p s = None"
  by (simp add: match_at_def rmatch_seqs_Cons)

lemma not_contains_drop:
  "\<not> contains f l u \<Longrightarrow> \<not> lit_prefix f l (drop i u)"
proof (induction u arbitrary: i)
  case Nil
  then show ?case by simp
next
  case (Cons c u)
  then show ?case by (cases i) auto
qed

lemma lit_prefix_crossing:
  "lit_prefix f l (u @ c # r) \<Longrightarrow> \<forall>x \<in> set l. \<not> atom_ok f (Chr x) c \<Longrightarrow> lit_prefix f l u"
proof (induction l arbitrary: u)
  case Nil
  then show ?case by simp
next
  case (Cons x xs)
  then show ?case by (cases u) auto
qed

lemma lit_prefix_same_letters:
  "ignorecase f \<Longrightarrow> map lower_char a = map lower_char b \<Longrightarrow> lit_prefix f a s = lit_prefix f b s"
proof (induction a arbitrary: b s)
  case Nil
  then show ?case by simp
next
  case (Cons x xs)
  then obtain y ys where b: "b = y # ys" by (cases b) auto
  with Cons show ?case by (cases s) auto
qed

lemma no_match_inside:
  assumes "\<not> contains f l u" and "\<forall>x \<in> set l. \<not> atom_ok f (Chr x) c"
  shows "\<not> lit_prefix f l (drop i u @ c # r)"
  using assms lit_prefix_crossing [of f l "drop i u" c r] not_contains_drop [of f l u i] by blast

lemma sub_from_anchored:
  "0 < p \<Longrightarrow> sub_from f (seqs (Bos # rs)) repl p s = s"
proof (induction s arbitrary: p)
  case Nil
  then show ?case by (simp add: match_at_def rmatch_seqs_Cons)
next
  case (Cons c cs)
  from Cons.prems have "match_at f (seqs (Bos # rs)) p (c # cs) = None"
    by (simp add: match_at_def rmatch_seqs_Cons)
  with Cons.IH [of "Suc p"] show ?case by simp
qed

lemma re_sub_anchored_no_match:
  "match_at f (seqs (Bos # rs)) 0 s = None \<Longrightarrow> re_sub (seqs (Bos # rs)) repl s f = s"
  unfolding re_sub_def by (cases s) (simp_all add: sub_from_anchored)

lemma atom_ok_same: "atom_ok f (Chr x) x"
  by simp

lemma lit_prefix_self: "lit_prefix f l (l @ r)"
  by (induction l) simp_all

lemma lit_prefix_append: "lit_prefix f l u \<Longrightarrow> lit_prefix f l (u @ v)"
proof (induction l arbitrary: u)
  case Nil
  then show ?case by simp
next
  case (Cons x xs)
  then show ?case by (cases u) auto
qed

lemma lit_prefix_shorter: "lit_prefix f (a @ x) s \<Longrightarrow> lit_prefix f a s"
proof (induction a arbitrary: s)
  case Nil
  then show ?case by simp
next
  case (Cons y ys)
  then show ?case by (cases s) auto
qed

lemma lit_accepts:
  "k (p + length l, r, g) = Some x \<Longrightarrow> rmatch f (Lit l) (p, l @ r, g) k = Some x"
  by (simp add: lit_prefix_self)

lemma label2_accepts:
  assumes "k (p + length a + 1 + length b, r, g) = Some x"
  shows "rmatch f (label2 a b mixed) (p, a @ CHR ''_'' # b @ r, g) k = Some x"
proof -
  let ?sep = "One (AnyOf [Chr CHR ''_'', Space])"
  have b: "rmatch f (Lit b) (Suc (p + length a), b @ r, g) k = Some x"
    using assms by (intro lit_accepts) (simp add: add.commute add.left_commute)
  have "rmatch f ?sep (p + length a, CHR ''_'' # b @ r, g) (\<lambda>st'. rmatch f (Lit b) st' k) = Some x"
    using b by simp
  then have "rmatch f (Opt ?sep) (p + length a, CHR ''_'' # b @ r, g) (\<lambda>st'. rmatch f (Lit b) st' k) = Some x"
    by simp
  then have "rmatch f (Lit a) (p, a @ CHR ''_'' # b @ r, g)
      (\<lambda>st. rmatch f (Opt ?sep) st (\<lambda>st'. rmatch f (Lit b) st' k)) = Some x"
    by (rule lit_accepts)
  then show ?thesis
    unfolding label2_def rmatch_seqs_Cons rmatch_seqs_Nil rmatch.simps(10) by simp
qed

lemma label2_rejects:
  assumes "ignorecase f" "map lower_char (take (length a) mixed) = map lower_char a"
    and "\<not> lit_prefix f a s"
  shows "rmatch f (label2 a b mixed) (p, s, g) k = None"
proof -
  have "lit_prefix f (take (length a) mixed) s = lit_prefix f a s"
    using assms(1,2) by (rule lit_prefix_same_letters)
  moreover have "lit_prefix f mixed s \<Longrightarrow> lit_prefix f (take (length a) mixed) s"
    using lit_prefix_shorter [of f "take (length a) mixed" "drop (length a) mixed" s] by simp
  ultimately have "\<not> lit_prefix f mixed s" using assms(3) by blast
  with assms(3) show ?thesis
    by (simp add: label2_def rmatch_seqs_Cons)
qed

lemma alt_accepts:
  "k (p + length a, r, g) = Some x \<Longrightarrow> rmatch f (Alt (Lit a) (Lit b)) (p, a @ r, g) k = Some x"
  by (simp add: lit_prefix_self)

lemma alt_rejects:
  assumes "ignorecase f" "map lower_char b = map lower_char a" "\<not> lit_prefix f a s"
  shows "rmatch f (Alt (Lit a) (Lit b)) (p, s, g) k = None"
  using assms lit_prefix_same_letters [of f b a s] by simp

lemma digit_not_space: "is_digit c \<Longrightarrow> \<not> is_space c"
  by (auto simp: is_digit_def is_space_def whitespace_def)

lemma colon_not_space: "\<not> is_space CHR '':''"
  by (simp add: is_space_def whitespace_def)

lemma blank_is_space: "is_space CHR '' ''"
  by (simp add: is_space_def whitespace_def)

lemma takeWhile_all: "list_all P v \<Longrightarrow> r = [] \<or> \<not> P (hd r) \<Longrightarrow> takeWhile P (v @ r) = v \<and> dropWhile P (v @ r) = r"
  by (induction v) (cases r; auto)+

lemma digits_group:
  assumes "v \<noteq> []" "list_all is_digit v" "r = [] \<or> \<not> is_digit (hd r)"
  shows "rmatch f (seqs [Group (Plus Digit)]) (p, v @ r, g) Some = Some (p + length v, r, Some v)"
proof -
  from assms obtain d ds where v: "v = d # ds" "is_digit d" "list_all is_digit ds"
    by (cases v) auto
  let ?k = "\<lambda>(p', s', g'). Some (p', s', Some (take (p' - p) (v @ r)))"
  have t: "takeWhile (atom_ok f Digit) (ds @ r) = ds" "dropWhile (atom_ok f Digit) (ds @ r) = r"
    using takeWhile_all [of is_digit ds r] v(3) assms(3) by (simp_all add: atom_ok.simps [abs_def] )
  have "?k (Suc p + length (takeWhile (atom_ok f Digit) (ds @ r)), dropWhile (atom_ok f Digit) (ds @ r), g)
      = Some (p + length v, r, Some v)"
    unfolding t by (simp add: v(1))
  from star_greedy [where k = ?k and p = "Suc p" and s = "ds @ r" and a = Digit and f = f and g = g, OF this] have "rmatch f (Star Digit) (Suc p, ds @ r, g) ?k = Some (p + length v, r, Some v)" .
  then show ?thesis
    using v by (simp add: rmatch_seqs_Cons rmatch_seqs_Nil Plus_def)
qed

lemma score_tail:
  assumes "v \<noteq> []" "list_all is_digit v" "r = [] \<or> \<not> is_digit (hd r)"
  shows "rmatch f (seqs [Star Space, Opt colon, Star Space, Group (Plus Digit)]) (p, '': '' @ v @ r, g) Some
     = Some (p + 2 + length v, r, Some v)"
proof -
  from assms obtain d ds where v: "v = d # ds" "is_digit d"
    by (cases v) auto
  have 1: "rmatch f (seqs [Star Space, Group (Plus Digit)]) (Suc (Suc p), v @ r, g) Some
      = Some (p + 2 + length v, r, Some v)"
    using digits_group [OF assms, of f "Suc (Suc p)" g] v digit_not_space [of d]
    by (simp add: rmatch_seqs_Cons [of _ "Star Space"])
  have 2: "rmatch f (seqs [Star Space, Group (Plus Digit)]) (Suc p, CHR '' '' # v @ r, g) Some
      = Some (p + 2 + length v, r, Some v)"
    using 1 by (simp add: rmatch_seqs_Cons [of _ "Star Space"] blank_is_space)
  have 3: "rmatch f (seqs [Opt colon, Star Space, Group (Plus Digit)]) (p, CHR '':'' # CHR '' '' # v @ r, g) Some
      = Some (p + 2 + length v, r, Some v)"
    unfolding colon_def using 2 by (simp add: rmatch_seqs_Cons [of _ "Opt (Lit '':'')"])
  show ?thesis
    using 3 by (simp add: rmatch_seqs_Cons [of _ "Star Space"] colon_not_space)
qed

lemma score_found:
  assumes acc: "\<And>k p r g x. k (p + n, r, g) = Some x \<Longrightarrow> rmatch f L (p, l @ r, g) k = Some x"
    and rej: "\<And>k p s g. \<not> lit_prefix f w s \<Longrightarrow> rmatch f L (p, s, g) k = None"
    and b: "\<forall>i < length before. \<not> lit_prefix f w (drop i before @ l @ '': '' @ v @ r)"
    and v: "v \<noteq> []" "list_all is_digit v" "r = [] \<or> \<not> is_digit (hd r)"
  shows "\<exists>m. re_search (score_rx L) (before @ l @ '': '' @ v @ r) f = Some m \<and> group1 m = Some v"
proof -
  let ?line = "l @ '': '' @ v @ r"
  have skip: "\<forall>i < length before. match_at f (score_rx L) (0 + i) (drop i before @ ?line) = None"
    using b rej by (simp add: match_at_def score_rx_def rmatch_seqs_Cons [of _ L])
  have "rmatch f (score_rx L) (length before, ?line, None) Some
      = Some (length before + n + 2 + length v, r, Some v)"
    unfolding score_rx_def rmatch_seqs_Cons [of _ L]
    by (rule acc) (use score_tail [OF v] in simp)
  then have here: "\<exists>m. match_at f (score_rx L) (length before) ?line = Some m \<and> group1 m = Some v"
    by (simp add: match_at_def)
  have "\<exists>m. search_from f (score_rx L) (length before) ?line = Some m \<and> group1 m = Some v"
  proof (cases ?line)
    case Nil
    with here show ?thesis by simp
  next
    case (Cons c cs)
    with here show ?thesis by auto
  qed
  with search_skip [OF skip] show ?thesis
    by (simp add: re_search_def)
qed

lemma lower_char_range: "lower_char c = c \<or> lower_char c \<in> set lower_letters"
proof (cases "map_of (zip upper_letters lower_letters) c")
  case None
  then show ?thesis by (simp add: lower_char_def)
next
  case (Some d)
  then have "(c, d) \<in> set (zip upper_letters lower_letters)" by (rule map_of_SomeD)
  then have "d \<in> set lower_letters" by (rule set_zip_rightD)
  with Some show ?thesis by (simp add: lower_char_def)
qed

lemma lower_char_newline: "lower_char c = lower_char newline \<longleftrightarrow> c = newline"
proof -
  have n: "lower_char newline = newline"
    using char_eval by (simp add: newline_def)
  have "newline \<notin> set lower_letters"
    by (simp add: lower_letters_def newline_def)
  with lower_char_range [of c] n show ?thesis by auto
qed

lemma no_newline_crossing:
  "ignorecase f \<Longrightarrow> newline \<notin> set l \<Longrightarrow> \<forall>x \<in> set l. \<not> atom_ok f (Chr x) newline"
proof
  fix x assume i: "ignorecase f" and n: "newline \<notin> set l" and x: "x \<in> set l"
  from n x have "x \<noteq> newline" by auto
  then have "lower_char x \<noteq> lower_char newline" by (simp add: lower_char_newline)
  with i show "\<not> atom_ok f (Chr x) newline" by auto
qed

lemma contains_append: "contains f l u \<Longrightarrow> contains f l (u @ v)"
proof (induction u)
  case Nil
  then have "l = []" by (cases l) auto
  then show ?case by (cases v) auto
next
  case (Cons c u)
  then show ?case using lit_prefix_append [of f l "c # u" v] by auto
qed

lemma no_label_before:
  assumes "ignorecase f" "newline \<notin> set w" "before = [] \<or> last before = newline"
    and "\<not> contains f w before"
  shows "\<forall>i < length before. \<not> lit_prefix f w (drop i before @ r)"
proof (intro allI impI)
  fix i assume i: "i < length before"
  then have "before \<noteq> []" by auto
  with assms(3) obtain u where u: "before = u @ [newline]"
    by (metis append_butlast_last_id)
  with assms(4) contains_append [of f w u "[newline]"] have "\<not> contains f w u" by blast
  from no_match_inside [OF this no_newline_crossing [OF assms(1,2)], of i r] u i
  show "\<not> lit_prefix f w (drop i before @ r)" by simp
qed

lemma valid_digits_all: "v \<noteq> [] \<Longrightarrow> list_all is_digit v \<Longrightarrow> valid_digits v"
proof (induction v rule: valid_digits.induct)
  case 1
  then show ?case by simp
next
  case (2 c)
  then show ?case by simp
next
  case (3 c d cs)
  then have "d \<noteq> CHR ''_''" by (auto simp: is_digit_def)
  with 3 show ?case by simp
qed

lemma py_int_digits:
  assumes "v \<noteq> []" "list_all is_digit v"
  shows "py_int v = Some (int (nat_of_digits v))"
proof -
  from assms have h: "is_digit (hd v)" "is_digit (last v)"
    by (auto simp: list_all_iff)
  then have "trimmed v" by (simp add: trimmed_def digit_not_space)
  then have s: "strip v = v" by (rule strip_trimmed)
  from h have sign: "hd v \<noteq> CHR ''-''" "hd v \<noteq> CHR ''+''"
    by (auto simp: is_digit_def)
  have "\<forall>c \<in> set v. c \<noteq> CHR ''_''"
    using assms(2) by (auto simp: list_all_iff is_digit_def)
  then have u: "filter (\<lambda>c. c \<noteq> CHR ''_'') v = v" by simp
  show ?thesis
    unfolding py_int_def s Let_def using sign u valid_digits_all [OF assms] by simp
qed

lemma find_score_located:
  assumes "re_search rx text re_I = Some m" "group1 m = Some v" "v \<noteq> []" "list_all is_digit v"
  shows "find_score text rx 5 = max 1 (min 10 (int (nat_of_digits v)))"
  using assms by (simp add: find_score_def clamp_int_def py_int_digits)

lemma twelve_and_zero: "nat_of_digits ''12'' = 12" "nat_of_digits ''0'' = 0"
  by (simp_all add: nat_of_digits_def digit_val_def)

lemma score_line_value:
  assumes l: "(w, t, rx, field) \<in> set score_labels"
    and b: "before = [] \<or> last before = newline" "\<not> contains re_I w before"
    and v: "v \<noteq> []" "list_all is_digit v" "r = [] \<or> \<not> is_digit (hd r)"
  shows "find_score (before @ w @ t @ '': '' @ v @ r) rx 5 = max 1 (min 10 (int (nat_of_digits v)))"
proof -
  have i: "ignorecase re_I" by (simp add: re_I_def)
  have two: "\<exists>m. re_search (score_rx (label2 a b mixed)) (before @ a @ (CHR ''_'' # b) @ '': '' @ v @ r) re_I = Some m
      \<and> group1 m = Some v"
    if "map lower_char (take (length a) mixed) = map lower_char a" "newline \<notin> set a"
      "\<not> contains re_I a before"
    for a b mixed
  proof -
    have "\<exists>m. re_search (score_rx (label2 a b mixed))
        (before @ (a @ CHR ''_'' # b) @ '': '' @ v @ r) re_I = Some m \<and> group1 m = Some v"
    proof (rule score_found [where w = a and n = "length a + 1 + length b"])
      show "\<And>k p r g x. k (p + (length a + 1 + length b), r, g) = Some x \<Longrightarrow>
          rmatch re_I (label2 a b mixed) (p, (a @ CHR ''_'' # b) @ r, g) k = Some x"
        using label2_accepts [of _ _ a b] by (simp add: add.assoc)
      show "\<And>k p s g. \<not> lit_prefix re_I a s \<Longrightarrow> rmatch re_I (label2 a b mixed) (p, s, g) k = None"
        using label2_rejects [OF i that(1)] by simp
      show "\<forall>i<length before. \<not> lit_prefix re_I a (drop i before @ (a @ CHR ''_'' # b) @ '': '' @ v @ r)"
        using no_label_before [OF i that(2) b(1) that(3)] by simp
    qed (rule v)+
    then show ?thesis by simp
  qed
  have one: "\<exists>m. re_search (score_rx (Alt (Lit a) (Lit a'))) (before @ a @ [] @ '': '' @ v @ r) re_I = Some m
      \<and> group1 m = Some v"
    if "map lower_char a' = map lower_char a" "newline \<notin> set a" "\<not> contains re_I a before"
    for a a'
  proof -
    have "\<exists>m. re_search (score_rx (Alt (Lit a) (Lit a'))) (before @ a @ '': '' @ v @ r) re_I = Some m
        \<and> group1 m = Some v"
    proof (rule score_found [where w = a and n = "length a"])
      show "\<And>k p r g x. k (p + length a, r, g) = Some x \<Longrightarrow>
          rmatch re_I (Alt (Lit a) (Lit a')) (p, a @ r, g) k = Some x"
        by (rule alt_accepts)
      show "\<And>k p s g. \<not> lit_prefix re_I a s \<Longrightarrow> rmatch re_I (Alt (Lit a) (Lit a')) (p, s, g) k = None"
        by (rule alt_rejects [OF i that(1)])
      show "\<forall>i<length before. \<not> lit_prefix re_I a (drop i before @ a @ '': '' @ v @ r)"
        by (rule no_label_before [OF i that(2) b(1) that(3)])
    qed (rule v)+
    then show ?thesis by simp
  qed
  let ?found = "\<lambda>rx w t. \<exists>m. re_search rx (before @ w @ t @ '': '' @ v @ r) re_I = Some m \<and> group1 m = Some v"
  have overall: "?found overall_rx ''OVERALL'' ''_SCORE''" if "\<not> contains re_I ''OVERALL'' before"
    unfolding overall_rx_def by (rule two) (simp_all add: char_eval newline_def that)
  have age: "?found age_rx ''AGE'' ''_APPROPRIATENESS''" if "\<not> contains re_I ''AGE'' before"
    unfolding age_rx_def by (rule two) (simp_all add: char_eval newline_def that)
  have eng: "?found engagement_rx ''ENGAGEMENT'' []" if "\<not> contains re_I ''ENGAGEMENT'' before"
    unfolding engagement_rx_def by (rule one) (simp_all add: char_eval newline_def that)
  have moral: "?found moral_clarity_rx ''MORAL'' ''_CLARITY''" if "\<not> contains re_I ''MORAL'' before"
    unfolding moral_clarity_rx_def by (rule two) (simp_all add: char_eval newline_def that)
  have struct: "?found structure_rx ''STORY'' ''_STRUCTURE''" if "\<not> contains re_I ''STORY'' before"
    unfolding structure_rx_def by (rule two) (simp_all add: char_eval newline_def that)
  have lang: "?found language_rx ''LANGUAGE'' ''_QUALITY''" if "\<not> contains re_I ''LANGUAGE'' before"
    unfolding language_rx_def by (rule two) (simp_all add: char_eval newline_def that)
  have "list_all (\<lambda>(w, t, rx, field). \<not> contains re_I w before \<longrightarrow> ?found rx w t) score_labels"
    unfolding score_labels_def list.pred_inject prod.case
    by (intro conjI impI list.pred_inject(1) TrueI) (erule overall age eng moral struct lang)+
  with l b(2) have "?found rx w t"
    unfolding list_all_iff by fast
  then obtain m where "re_search rx (before @ w @ t @ '': '' @ v @ r) re_I = Some m" "group1 m = Some v"
    by blast
  from find_score_located [OF this v(1,2)] show ?thesis .
qed

lemma field_of_label:
  assumes "(w, t, rx, field) \<in> set score_labels" "parse_judge_response text = Inr fb"
  shows "field fb = find_score text rx 5"
proof -
  from parse_judge_response_total [of "text"] assms(2) obtain f s where
    fb: "fb = \<lparr>overall_score = find_score text overall_rx 5,
       age_appropriateness = find_score text age_rx 5,
       engagement = find_score text engagement_rx 5,
       moral_clarity = find_score text moral_clarity_rx 5,
       story_structure = find_score text structure_rx 5,
       language_quality = find_score text language_rx 5,
       feedback = f, suggestions = s\<rparr>"
    by auto
  have "list_all (\<lambda>(w, t, rx, field). field fb = find_score text rx 5) score_labels"
    unfolding score_labels_def list.pred_inject prod.case fb by simp
  with assms(1) show ?thesis
    unfolding list_all_iff by fast
qed

lemma parse_judge_scored: "parse_judge_response scored = Inr scored_feedback"
  by (simp add: scored_def scored_feedback_def judge_eval regex_eval text_eval)

section \<open>Claims\<close>

text \<open>
  Claim C1.  One run of \<^verbatim>\<open>generate_and_refine_story\<close>, whether it returns or raises, adds to
  the trace at most five produced stories; their versions are 1, 2, ... in this order, so
  they are the first draft and at most four refinements.  The judged rounds are numbered
  1, 2, ... in the order of the trace, and when the run returns, the history it returns is
  the list of their feedbacks, one for each round, in that order.
\<close>

theorem refinement_bounded:
  assumes "generate_and_refine_story request w = (res, w')"
  shows "\<exists>evs. trace w' = trace w @ evs
     \<and> length (produced evs) \<le> 5
     \<and> versions_from 1 (produced evs)
     \<and> rounds evs = [1..<Suc (length (judged evs))]
     \<and> (\<forall>story history. res = Inr (story, history) \<longrightarrow> history = feedbacks evs)"
proof -
  from generate_and_refine_run [OF assms] show ?thesis
  proof (elim disjE exE conjE)
    fix e
    assume "res = Inl e" "trace w' = trace w"
    then show ?thesis
      by (intro exI [of _ "[]"]) (simp add: rounds_def)
  next
    fix draft evs
    assume a: "version draft = 1" "trace w' = trace w @ StoryProduced draft # evs"
      "loop_inv [0, 1, 2, 3, 4] draft [] evs res" "versions_from 2 (produced evs)"
    from a(3) have p: "length (produced evs) \<le> 4"
      and r: "rounds evs = map Suc (take (length (judged evs)) [0, 1, 2, 3, 4])"
      and h: "\<forall>s h. res = Inr (s, h) \<longrightarrow> h = feedbacks evs"
      by (simp_all add: loop_inv_def MAX_REFINEMENT_ITERATIONS_def)
    from rounds_upto [OF r] a p h show ?thesis
      by (intro exI [of _ "StoryProduced draft # evs"]) (simp add: rounds_def feedbacks_def)
  qed
qed

theorem refinement_bounded_witness:
  "generate_and_refine_story sample_request quiet_world =
     (Inr (untitled 5, [middling, middling, middling, middling, middling]),
      quiet_world\<lparr>calls := 10, trace := quiet_trace\<rparr>)
   \<and> length (produced quiet_trace) = 5
   \<and> versions_from 1 (produced quiet_trace)
   \<and> rounds quiet_trace = [1, 2, 3, 4, 5]
   \<and> [middling, middling, middling, middling, middling] = feedbacks quiet_trace"
proof -
  from refinement_bounded [OF quiet_run'] obtain evs where
    evs: "trace (quiet_world\<lparr>calls := 10, trace := quiet_trace\<rparr>) = trace quiet_world @ evs"
      "length (produced evs) \<le> 5" "versions_from 1 (produced evs)"
      "rounds evs = [1..<Suc (length (judged evs))]"
      "[middling, middling, middling, middling, middling] = feedbacks evs"
    by blast
  from evs(1) have e: "evs = quiet_trace" by (simp add: quiet_world_def)
  have "length (produced quiet_trace) = 5" "length (judged quiet_trace) = 5"
    by (simp_all add: quiet_trace_def)
  with evs e quiet_run' show ?thesis by (simp add: upt_rec)
qed

text \<open>
  Claim C2.  In one run of \<^verbatim>\<open>generate_and_refine_story\<close>, a judged round whose overall score
  is at least 7 is the last event of the trace (nothing is refined or judged after it), the
  run returns, and the story it returns is the story judged in that round.  Whenever the
  run returns, the story returned is the one judged in the last round.  When it returns and
  no score of the history reaches 7, exactly the rounds 1 to 5 were judged.  When the
  service answers every attempt, the run returns and raises nothing.
\<close>

theorem stops_at_threshold:
  assumes "generate_and_refine_story request w = (res, w')"
  shows "\<exists>evs. trace w' = trace w @ evs
     \<and> (\<forall>pre r s fb post. evs = pre @ StoryJudged r s fb # post \<and> JUDGE_THRESHOLD \<le> overall_score fb
           \<longrightarrow> post = [] \<and> (\<exists>h. res = Inr (s, h)))
     \<and> (\<forall>s h. res = Inr (s, h) \<longrightarrow> (\<exists>pre r fb. evs = pre @ [StoryJudged r s fb]))
     \<and> (\<forall>s h. res = Inr (s, h) \<and> (\<forall>fb \<in> set h. overall_score fb < JUDGE_THRESHOLD)
           \<longrightarrow> length h = 5 \<and> rounds evs = [1, 2, 3, 4, 5])
     \<and> (never_fails w \<longrightarrow> (\<exists>s h. res = Inr (s, h)))"
proof -
  from generate_and_refine_run [OF assms] show ?thesis
  proof (elim disjE exE conjE)
    fix e
    assume "res = Inl e" "trace w' = trace w" "\<not> never_fails w"
    then show ?thesis
      by (intro exI [of _ "[]"]) simp
  next
    fix draft evs
    assume a: "version draft = 1" "trace w' = trace w @ StoryProduced draft # evs"
      "loop_inv [0, 1, 2, 3, 4] draft [] evs res"
      "never_fails w \<longrightarrow> (\<exists>s h. res = Inr (s, h))"
    let ?evs = "StoryProduced draft # evs"
    from a(3) have tl: "threshold_last evs"
      and ok: "(\<exists>fb \<in> set (feedbacks evs). JUDGE_THRESHOLD \<le> overall_score fb) \<longrightarrow> (\<exists>s h. res = Inr (s, h))"
      and lastj: "\<forall>s h. res = Inr (s, h) \<longrightarrow> (\<exists>pre r fb. evs = pre @ [StoryJudged r s fb])"
      and h: "\<forall>s h. res = Inr (s, h) \<longrightarrow> h = feedbacks evs"
      and full: "\<forall>s h. res = Inr (s, h) \<and> (\<forall>fb \<in> set (feedbacks evs). overall_score fb < JUDGE_THRESHOLD)
            \<longrightarrow> length (judged evs) = 5"
      and r: "rounds evs = map Suc (take (length (judged evs)) [0, 1, 2, 3, 4])"
      by (simp_all add: loop_inv_def MAX_REFINEMENT_ITERATIONS_def)
    have 1: "post = [] \<and> (\<exists>h. res = Inr (s, h))"
      if d: "?evs = pre @ StoryJudged r s fb # post" and pass: "JUDGE_THRESHOLD \<le> overall_score fb"
      for pre r s fb post
    proof -
      from d obtain pre' where pre': "evs = pre' @ StoryJudged r s fb # post"
        by (cases pre) auto
      with tl pass have post: "post = []" by (auto dest: threshold_last_append)
      from pre' have "fb \<in> set (feedbacks evs)" by (simp add: feedbacks_def)
      with ok pass obtain s' h' where res: "res = Inr (s', h')" by blast
      with lastj obtain pre2 r2 fb2 where "evs = pre2 @ [StoryJudged r2 s' fb2]" by blast
      with pre' post have "s' = s" by simp
      with res post show ?thesis by simp
    qed
    have 2: "\<exists>pre r fb. ?evs = pre @ [StoryJudged r s fb]" if "res = Inr (s, h)" for s h
    proof -
      from lastj that obtain pre r fb where "evs = pre @ [StoryJudged r s fb]" by blast
      then have "?evs = (StoryProduced draft # pre) @ [StoryJudged r s fb]" by simp
      then show ?thesis by blast
    qed
    have 3: "length h = 5 \<and> rounds ?evs = [1, 2, 3, 4, 5]"
      if "res = Inr (s, h)" "\<forall>fb \<in> set h. overall_score fb < JUDGE_THRESHOLD" for s h
    proof -
      from h that have hh: "h = feedbacks evs" by simp
      with full that have "length (judged evs) = 5" by blast
      with r hh show ?thesis by (simp add: feedbacks_def rounds_def)
    qed
    from a(2) a(4) 1 2 3 show ?thesis
      by (intro exI [of _ ?evs]) blast
  qed
qed

theorem stops_at_threshold_witness:
  "never_fails praising_world
   \<and> generate_and_refine_story sample_request praising_world =
       (Inr (praised, [praise]),
        praising_world\<lparr>calls := 2, trace := [] @ StoryProduced praised # [StoryJudged 1 praised praise]\<rparr>)
   \<and> JUDGE_THRESHOLD \<le> overall_score praise
   \<and> never_fails quiet_world
   \<and> generate_and_refine_story sample_request quiet_world =
       (Inr (untitled 5, [middling, middling, middling, middling, middling]),
        quiet_world\<lparr>calls := 10, trace := quiet_trace\<rparr>)
   \<and> list_all (\<lambda>fb. overall_score fb < JUDGE_THRESHOLD) [middling, middling, middling, middling, middling]
   \<and> rounds quiet_trace = [1, 2, 3, 4, 5]
   \<and> last quiet_trace = StoryJudged 5 (untitled 5) middling"
proof -
  have nf: "never_fails praising_world" "never_fails quiet_world"
    by (simp_all add: never_fails_def praising_world_def quiet_world_def)
  have low: "\<forall>fb \<in> set [middling, middling, middling, middling, middling]. overall_score fb < JUDGE_THRESHOLD"
    by (simp add: middling_def JUDGE_THRESHOLD_def)
  from stops_at_threshold [OF quiet_run'] have r: "rounds quiet_trace = [1, 2, 3, 4, 5]"
  proof (elim exE conjE)
    fix evs
    assume t: "trace (quiet_world\<lparr>calls := 10, trace := quiet_trace\<rparr>) = trace quiet_world @ evs"
    assume c: "\<forall>s h. Inr (untitled 5, [middling, middling, middling, middling, middling]) = Inr (s, h)
          \<and> (\<forall>fb \<in> set h. overall_score fb < JUDGE_THRESHOLD)
          \<longrightarrow> length h = 5 \<and> rounds evs = [1, 2, 3, 4, 5]"
    from t have e: "evs = quiet_trace" by (simp add: quiet_world_def)
    from c have "(\<forall>fb \<in> set [middling, middling, middling, middling, middling]. overall_score fb < JUDGE_THRESHOLD)
          \<longrightarrow> rounds evs = [1, 2, 3, 4, 5]"
      by simp
    with low e show ?thesis by simp
  qed
  have p: "JUDGE_THRESHOLD \<le> overall_score praise"
    by (simp add: praise_def JUDGE_THRESHOLD_def)
  have l: "last quiet_trace = StoryJudged 5 (untitled 5) middling"
    by (simp add: quiet_trace_def)
  from nf praising_run quiet_run' p r l low show ?thesis
    by (simp add: list_all_iff)
qed

text \<open>
  Claim C3.  \<^verbatim>\<open>call_model\<close> makes at most three attempts.  The first attempt that returns a
  content ends the call with that content (the empty text for \<^verbatim>\<open>None\<close>) and no further
  attempt; before the second attempt it has slept 1.5 seconds times 1 and before the third
  1.5 seconds times 2, the second delay being longer than the first.  When all three
  attempts raise, it raises a \<^verbatim>\<open>RuntimeError\<close> whose message ends with the text of the last
  exception, without a sleep after the third attempt.
\<close>

theorem call_model_retry_policy:
  "calls (snd (call_model pr w)) \<le> calls w + 3
   \<and> (\<forall>c. remote w (calls w) pr = Content c \<longrightarrow>
         call_model pr w = (Inr (case c of None \<Rightarrow> [] | Some s \<Rightarrow> s), w\<lparr>calls := calls w + 1\<rparr>))
   \<and> (\<forall>e1 c. remote w (calls w) pr = Raises e1 \<and> remote w (calls w + 1) pr = Content c \<longrightarrow>
         call_model pr w = (Inr (case c of None \<Rightarrow> [] | Some s \<Rightarrow> s),
           w\<lparr>calls := calls w + 2, sleeps := sleeps w @ [API_RETRY_BACKOFF_SECONDS * 1]\<rparr>))
   \<and> (\<forall>e1 e2 c. remote w (calls w) pr = Raises e1 \<and> remote w (calls w + 1) pr = Raises e2
           \<and> remote w (calls w + 2) pr = Content c \<longrightarrow>
         call_model pr w = (Inr (case c of None \<Rightarrow> [] | Some s \<Rightarrow> s),
           w\<lparr>calls := calls w + 3,
             sleeps := sleeps w @ [API_RETRY_BACKOFF_SECONDS * 1, API_RETRY_BACKOFF_SECONDS * 2]\<rparr>))
   \<and> (\<forall>e1 e2 e3. remote w (calls w) pr = Raises e1 \<and> remote w (calls w + 1) pr = Raises e2
           \<and> remote w (calls w + 2) pr = Raises e3 \<longrightarrow>
         call_model pr w = (Inl (RuntimeError (''OpenAI API call failed after 3 attempts: '' @ e3)),
           w\<lparr>calls := calls w + 3,
             sleeps := sleeps w @ [API_RETRY_BACKOFF_SECONDS * 1, API_RETRY_BACKOFF_SECONDS * 2]\<rparr>))
   \<and> API_RETRY_BACKOFF_SECONDS * 1 < API_RETRY_BACKOFF_SECONDS * 2"
  unfolding call_model_cases
  by (auto split: outcome.splits simp: API_RETRY_BACKOFF_SECONDS_def)

theorem call_model_retry_witness:
  "remote flaky_world (calls flaky_world) (StoryPrompt sample_request None) = Raises ''timeout''
   \<and> remote flaky_world (calls flaky_world + 1) (StoryPrompt sample_request None) = Content (Some ''ok'')
   \<and> call_model (StoryPrompt sample_request None) flaky_world
       = (Inr ''ok'', flaky_world\<lparr>calls := 2, sleeps := [3 / 2]\<rparr>)"
  using call_model_retry_policy [of "StoryPrompt sample_request None" flaky_world]
  by (simp add: flaky_world_def API_RETRY_BACKOFF_SECONDS_def)

text \<open>
  Claim C4.  On every text each of the five extractors returns a value and raises
  nothing; the six scores of \<^verbatim>\<open>parse_judge_response\<close> lie between 1 and 10; and on the empty
  text \<^verbatim>\<open>parse_judge_response\<close> returns six scores of 5, an empty feedback text and no
  suggestions.
\<close>

theorem extractors_total:
  "(\<exists>d. parse_analyzer_response text = Inr d)
   \<and> (\<exists>t c m. parse_story_response text fallback = Inr (t, c, m))
   \<and> (\<exists>fb. parse_judge_response text = Inr fb
         \<and> 1 \<le> overall_score fb \<and> overall_score fb \<le> 10
         \<and> 1 \<le> age_appropriateness fb \<and> age_appropriateness fb \<le> 10
         \<and> 1 \<le> engagement fb \<and> engagement fb \<le> 10
         \<and> 1 \<le> moral_clarity fb \<and> moral_clarity fb \<le> 10
         \<and> 1 \<le> story_structure fb \<and> story_structure fb \<le> 10
         \<and> 1 \<le> language_quality fb \<and> language_quality fb \<le> 10)
   \<and> (\<exists>c1 c2. parse_choice_proposal text = Inr (c1, c2))
   \<and> (\<exists>c m. parse_continuation_response text = Inr (c, m))
   \<and> parse_judge_response [] = Inr \<lparr>overall_score = 5, age_appropriateness = 5, engagement = 5,
        moral_clarity = 5, story_structure = 5, language_quality = 5,
        feedback = [], suggestions = []\<rparr>"
proof -
  have 1: "\<exists>d. parse_analyzer_response text = Inr d"
    by (rule parse_analyzer_response_total)
  have 2: "\<exists>t c m. parse_story_response text fallback = Inr (t, c, m)"
    by (rule parse_story_response_total)
  from parse_judge_response_total [of "text"] obtain fb where fb: "parse_judge_response text = Inr fb"
    and "overall_score fb = find_score text overall_rx 5"
    and "age_appropriateness fb = find_score text age_rx 5"
    and "engagement fb = find_score text engagement_rx 5"
    and "moral_clarity fb = find_score text moral_clarity_rx 5"
    and "story_structure fb = find_score text structure_rx 5"
    and "language_quality fb = find_score text language_rx 5"
    by force
  then have 3: "\<exists>fb. parse_judge_response text = Inr fb
         \<and> 1 \<le> overall_score fb \<and> overall_score fb \<le> 10
         \<and> 1 \<le> age_appropriateness fb \<and> age_appropriateness fb \<le> 10
         \<and> 1 \<le> engagement fb \<and> engagement fb \<le> 10
         \<and> 1 \<le> moral_clarity fb \<and> moral_clarity fb \<le> 10
         \<and> 1 \<le> story_structure fb \<and> story_structure fb \<le> 10
         \<and> 1 \<le> language_quality fb \<and> language_quality fb \<le> 10"
    using find_score_range by (intro exI [of _ fb]) simp
  have 4: "\<exists>c1 c2. parse_choice_proposal text = Inr (c1, c2)"
    using parse_choice_proposal_total [of "text"] by blast
  have 5: "\<exists>c m. parse_continuation_response text = Inr (c, m)"
    by (rule parse_continuation_response_total)
  have 6: "parse_judge_response [] = Inr \<lparr>overall_score = 5, age_appropriateness = 5, engagement = 5,
        moral_clarity = 5, story_structure = 5, language_quality = 5,
        feedback = [], suggestions = []\<rparr>"
    using parse_judge_empty by (simp add: middling_def)
  from 1 2 3 4 5 6 show ?thesis by blast
qed

theorem extractors_total_witness:
  "(\<exists>d. parse_analyzer_response ''TONE: calm'' = Inr d)
   \<and> (\<exists>t c m. parse_story_response ''TONE: calm'' ''Untitled Story'' = Inr (t, c, m))
   \<and> (\<exists>fb. parse_judge_response ''TONE: calm'' = Inr fb
         \<and> 1 \<le> overall_score fb \<and> overall_score fb \<le> 10
         \<and> 1 \<le> language_quality fb \<and> language_quality fb \<le> 10)
   \<and> (\<exists>c1 c2. parse_choice_proposal ''TONE: calm'' = Inr (c1, c2))
   \<and> (\<exists>c m. parse_continuation_response ''TONE: calm'' = Inr (c, m))"
  using extractors_total [of "''TONE: calm''" "''Untitled Story''"] by blast

text \<open>
  Claim C5.  On every text \<^verbatim>\<open>parse_judge_response\<close> returns a feedback whose six scores lie
  in the interval from 1 to 10.  Where the text has a score line, that is one of the six
  labels followed by a colon, a blank and a decimal value that no further digit follows,
  at the start of a line, with the first word of the label nowhere before it, the score
  of that label is the value clamped into the interval: 10 for the value \<^verbatim>\<open>12\<close> and 1 for the
  value \<^verbatim>\<open>0\<close>.
\<close>

theorem scores_clamped:
  "\<exists>fb. parse_judge_response text = Inr fb
     \<and> (\<forall>(w, t, rx, field) \<in> set score_labels.
          1 \<le> field fb \<and> field fb \<le> 10
          \<and> (\<forall>before v r.
                text = before @ w @ t @ '': '' @ v @ r
                \<and> (before = [] \<or> last before = newline) \<and> \<not> contains re_I w before
                \<and> v \<noteq> [] \<and> list_all is_digit v \<and> (r = [] \<or> \<not> is_digit (hd r))
              \<longrightarrow> field fb = max 1 (min 10 (int (nat_of_digits v)))
                  \<and> (v = ''12'' \<longrightarrow> field fb = 10)
                  \<and> (v = ''0'' \<longrightarrow> field fb = 1)))"
proof -
  from parse_judge_response_total [of "text"] obtain fb where fb: "parse_judge_response text = Inr fb"
    by blast
  have "1 \<le> field fb \<and> field fb \<le> 10
      \<and> (\<forall>before v r.
            text = before @ w @ t @ '': '' @ v @ r
            \<and> (before = [] \<or> last before = newline) \<and> \<not> contains re_I w before
            \<and> v \<noteq> [] \<and> list_all is_digit v \<and> (r = [] \<or> \<not> is_digit (hd r))
          \<longrightarrow> field fb = max 1 (min 10 (int (nat_of_digits v)))
              \<and> (v = ''12'' \<longrightarrow> field fb = 10)
              \<and> (v = ''0'' \<longrightarrow> field fb = 1))"
    if l: "(w, t, rx, field) \<in> set score_labels" for w t rx field
  proof (intro conjI allI impI)
    have f: "field fb = find_score text rx 5"
      using l fb by (rule field_of_label)
    from f find_score_range [of "text" rx] show "1 \<le> field fb" "field fb \<le> 10"
      by simp_all
    fix before v r
    assume a: "text = before @ w @ t @ '': '' @ v @ r
        \<and> (before = [] \<or> last before = newline) \<and> \<not> contains re_I w before
        \<and> v \<noteq> [] \<and> list_all is_digit v \<and> (r = [] \<or> \<not> is_digit (hd r))"
    then have "find_score text rx 5 = max 1 (min 10 (int (nat_of_digits v)))"
      using score_line_value [OF l, of before v r] by simp
    with f show v: "field fb = max 1 (min 10 (int (nat_of_digits v)))"
      by simp
    show "field fb = 10" if "v = ''12''"
      using v that by (simp add: twelve_and_zero)
    show "field fb = 1" if "v = ''0''"
      using v that by (simp add: twelve_and_zero)
  qed
  with fb show ?thesis
    by (intro exI [of _ fb]) fast
qed

theorem scores_clamped_witness:
  "parse_judge_response scored = Inr scored_feedback
   \<and> engagement scored_feedback = 10
   \<and> (''ENGAGEMENT'', [], engagement_rx, engagement) \<in> set score_labels
   \<and> scored = (''OVERALL_SCORE: 0'' @ [newline]) @ ''ENGAGEMENT'' @ [] @ '': '' @ ''12'' @ []
   \<and> last (''OVERALL_SCORE: 0'' @ [newline]) = newline
   \<and> \<not> contains re_I ''ENGAGEMENT'' (''OVERALL_SCORE: 0'' @ [newline])
   \<and> list_all is_digit ''12''"
proof -
  have l: "(''ENGAGEMENT'', [], engagement_rx, engagement) \<in> set score_labels"
    by (simp add: score_labels_def)
  have t: "scored = (''OVERALL_SCORE: 0'' @ [newline]) @ ''ENGAGEMENT'' @ [] @ '': '' @ ''12'' @ []"
    by (simp add: scored_def)
  have b: "last (''OVERALL_SCORE: 0'' @ [newline]) = newline"
    by simp
  have c: "\<not> contains re_I ''ENGAGEMENT'' (''OVERALL_SCORE: 0'' @ [newline])"
    by (simp add: re_I_def text_eval)
  have d: "list_all is_digit ''12''"
    by (simp add: char_eval)
  from scores_clamped [of scored] obtain fb where fb: "parse_judge_response scored = Inr fb"
    and all: "\<forall>(w, t, rx, field) \<in> set score_labels.
          1 \<le> field fb \<and> field fb \<le> 10
          \<and> (\<forall>before v r.
                scored = before @ w @ t @ '': '' @ v @ r
                \<and> (before = [] \<or> last before = newline) \<and> \<not> contains re_I w before
                \<and> v \<noteq> [] \<and> list_all is_digit v \<and> (r = [] \<or> \<not> is_digit (hd r))
              \<longrightarrow> field fb = max 1 (min 10 (int (nat_of_digits v)))
                  \<and> (v = ''12'' \<longrightarrow> field fb = 10)
                  \<and> (v = ''0'' \<longrightarrow> field fb = 1))"
    by (elim exE conjE)
  have h: "scored = (''OVERALL_SCORE: 0'' @ [newline]) @ ''ENGAGEMENT'' @ [] @ '': '' @ ''12'' @ []
      \<and> (''OVERALL_SCORE: 0'' @ [newline] = [] \<or> last (''OVERALL_SCORE: 0'' @ [newline]) = newline)
      \<and> \<not> contains re_I ''ENGAGEMENT'' (''OVERALL_SCORE: 0'' @ [newline])
      \<and> ''12'' \<noteq> [] \<and> list_all is_digit ''12'' \<and> ([] = [] \<or> \<not> is_digit (hd []))"
  proof (intro conjI t c d)
    show "''OVERALL_SCORE: 0'' @ [newline] = [] \<or> last (''OVERALL_SCORE: 0'' @ [newline]) = newline"
      using b by (rule disjI2)
  qed simp_all
  from bspec [OF all l, unfolded prod.case, THEN conjunct2, THEN conjunct2, rule_format, OF h]
  have "engagement fb = 10" by simp
  moreover from fb have "fb = scored_feedback" by (simp add: parse_judge_scored)
  ultimately show ?thesis
    using l t b c d parse_judge_scored by simp
qed

text \<open>
  Claim C6, as amended.  On every text \<^verbatim>\<open>parse_choice_proposal\<close> returns two options, neither
  of them empty; when neither label pattern finds a match and fewer than two numbered
  lines are found, they are the two default options, which differ.  (Options taken from
  the text are not compared with each other, and may be equal.)
\<close>

theorem choice_proposal_two_options:
  "\<exists>c1 c2. parse_choice_proposal text = Inr (c1, c2) \<and> c1 \<noteq> [] \<and> c2 \<noteq> []
     \<and> (re_search (choice_rx ''CHOICE_1'') text re_I = None
          \<and> re_search (choice_rx ''CHOICE_2'') text re_I = None
          \<and> length (numbered_lines text) < 2
        \<longrightarrow> c1 = default_choice_1 \<and> c2 = default_choice_2 \<and> c1 \<noteq> c2)"
proof -
  obtain c1 c2 where p: "parse_choice_proposal text = Inr (c1, c2)" "c1 \<noteq> []" "c2 \<noteq> []"
    using parse_choice_proposal_total [of "text"] by (elim exE conjE)
  have "c1 = default_choice_1 \<and> c2 = default_choice_2"
    if "re_search (choice_rx ''CHOICE_1'') text re_I = None"
      "re_search (choice_rx ''CHOICE_2'') text re_I = None"
      "length (numbered_lines text) < 2"
    using p(1) that by (simp add: parse_choice_proposal_def Let_def)
  with p defaults_differ show ?thesis
    by (intro exI [of _ c1] exI [of _ c2]) simp
qed

theorem choice_proposal_witness:
  "parse_choice_proposal ''a'' = Inr (default_choice_1, default_choice_2)
   \<and> re_search (choice_rx ''CHOICE_1'') ''a'' re_I = None
   \<and> re_search (choice_rx ''CHOICE_2'') ''a'' re_I = None
   \<and> length (numbered_lines ''a'') < 2
   \<and> default_choice_1 \<noteq> default_choice_2"
proof -
  have s: "re_search (choice_rx ''CHOICE_1'') ''a'' re_I = None"
    "re_search (choice_rx ''CHOICE_2'') ''a'' re_I = None"
    by (simp_all add: choice_eval regex_eval text_eval)
  have n: "length (numbered_lines ''a'') < 2"
    by (simp add: choice_eval regex_eval text_eval)
  from choice_proposal_two_options [of "''a''"] s n show ?thesis
    by auto
qed

text \<open>
  Claim C6 as stated, with two mutually distinct options on every text, fails on
  \<^verbatim>\<open>twin_choices\<close>: both labels are found and both options are \<^verbatim>\<open>a\<close>.
\<close>

theorem equal_choices_counterexample:
  "parse_choice_proposal twin_choices = Inr (''a'', ''a'')
   \<and> \<not> (\<exists>c1 c2. parse_choice_proposal twin_choices = Inr (c1, c2) \<and> c1 \<noteq> c2)"
proof -
  have "parse_choice_proposal twin_choices = Inr (''a'', ''a'')"
    by (simp add: twin_choices_def choice_eval regex_eval text_eval)
  then show ?thesis by simp
qed

text \<open>
  Claim C7.  A run of \<^verbatim>\<open>run_interactive_choice_mode\<close> with a ceiling of 3 steps in which the
  first continuation carries no moral and the second one does returns right after
  committing step 2: the story returned is the second commit, the run has added exactly
  two beats to the trace, and it has made no service call and read no line after the
  second continuation; so there is no third proposal, selection or beat.
\<close>

theorem choice_mode_stops_after_moral:
  assumes p1: "propose_next_choices story request 1 3 w0 = (Inr (a1, b1), w1)"
    and s1: "await_selection w1 = (Inr (Picked pick1), w2)"
    and g1: "generate_continuation story request (if pick1 = ''1'' then a1 else b1) 1 3 w2
               = (Inr (beat1, moral1), w3)"
    and m1: "strip moral1 = []"
    and p2: "propose_next_choices (commit_continuation story beat1 moral1) request 2 3
               (record_event (BeatCommitted 1 (commit_continuation story beat1 moral1)) w3)
               = (Inr (a2, b2), w4)"
    and s2: "await_selection w4 = (Inr (Picked pick2), w5)"
    and g2: "generate_continuation (commit_continuation story beat1 moral1) request
               (if pick2 = ''1'' then a2 else b2) 2 3 w5 = (Inr (beat2, moral2), w6)"
    and m2: "strip moral2 \<noteq> []"
  shows "run_interactive_choice_mode story request 3 w0 =
           (Inr (commit_continuation (commit_continuation story beat1 moral1) beat2 moral2),
            record_event (BeatCommitted 2
              (commit_continuation (commit_continuation story beat1 moral1) beat2 moral2)) w6)
     \<and> trace (snd (run_interactive_choice_mode story request 3 w0)) =
           trace w0 @ [BeatCommitted 1 (commit_continuation story beat1 moral1),
                      BeatCommitted 2 (commit_continuation (commit_continuation story beat1 moral1) beat2 moral2)]
     \<and> calls (snd (run_interactive_choice_mode story request 3 w0)) = calls w6
     \<and> stdin (snd (run_interactive_choice_mode story request 3 w0)) = stdin w6
     \<and> version (commit_continuation (commit_continuation story beat1 moral1) beat2 moral2) = version story + 2"
proof -
  let ?s1 = "commit_continuation story beat1 moral1"
  let ?s2 = "commit_continuation ?s1 beat2 moral2"
  have run: "run_interactive_choice_mode story request 3 w0 =
      (Inr ?s2, record_event (BeatCommitted 2 ?s2) w6)"
    unfolding run_interactive_choice_mode_def steps_range
    using p1 s1 g1 m1 p2 s2 g2 m2 by (simp add: Let_def)
  have t: "trace w6 = trace w0 @ [BeatCommitted 1 ?s1]"
    using propose_frame [OF p1] await_frame [OF s1] continuation_frame [OF g1]
      propose_frame [OF p2] await_frame [OF s2] continuation_frame [OF g2]
    by (simp add: record_event_def)
  have v: "version ?s2 = version story + 2"
    by (simp add: commit_continuation_def Let_def)
  show ?thesis
    unfolding run using t v by (simp add: record_event_def)
qed

theorem choice_mode_witness:
  "run_interactive_choice_mode sample_story sample_request 3 choosing_world =
     (Inr after_z, choosing_world\<lparr>calls := 4, stdin := [],
        trace := [BeatCommitted 1 after_a, BeatCommitted 2 after_z]\<rparr>)
   \<and> trace choosing_world = []
   \<and> version after_z = version sample_story + 2"
proof -
  let ?w1 = "choosing_world\<lparr>calls := 1\<rparr>"
  let ?w2 = "choosing_world\<lparr>calls := 1, stdin := [''x'', ''2'']\<rparr>"
  let ?w3 = "choosing_world\<lparr>calls := 2, stdin := [''x'', ''2'']\<rparr>"
  let ?w4 = "choosing_world\<lparr>calls := 3, stdin := [''x'', ''2''], trace := [BeatCommitted 1 after_a]\<rparr>"
  let ?w5 = "choosing_world\<lparr>calls := 3, stdin := [], trace := [BeatCommitted 1 after_a]\<rparr>"
  let ?w6 = "choosing_world\<lparr>calls := 4, stdin := [], trace := [BeatCommitted 1 after_a]\<rparr>"
  have p1: "propose_next_choices sample_story sample_request 1 3 choosing_world
      = (Inr (default_choice_1, default_choice_2), ?w1)"
    by (simp add: propose_next_choices_def call_choosing parse_choice_a choosing_world_def)
  have s1: "await_selection ?w1 = (Inr (Picked ''1''), ?w2)"
    by (simp add: await_selection_def choosing_world_def lower_def text_eval)
  have g1: "generate_continuation sample_story sample_request
      (if ''1'' = ''1'' then default_choice_1 else default_choice_2) 1 3 ?w2 = (Inr (''a'', []), ?w3)"
    by (simp add: generate_continuation_def call_choosing parse_continuation_a choosing_world_def)
  have m1: "strip [] = []"
    by (simp add: text_eval)
  have p2: "propose_next_choices (commit_continuation sample_story ''a'' []) sample_request 2 3
      (record_event (BeatCommitted 1 (commit_continuation sample_story ''a'' [])) ?w3)
      = (Inr (default_choice_1, default_choice_2), ?w4)"
    by (simp add: commit_a propose_next_choices_def call_choosing parse_choice_a choosing_world_def
        record_event_def)
  have s2: "await_selection ?w4 = (Inr (Picked ''2''), ?w5)"
    by (simp add: await_selection_def choosing_world_def lower_def text_eval)
  have g2: "generate_continuation (commit_continuation sample_story ''a'' []) sample_request
      (if ''2'' = ''1'' then default_choice_1 else default_choice_2) 2 3 ?w5
      = (Inr (''Z MORAL: k'', ''k''), ?w6)"
    by (simp add: commit_a generate_continuation_def call_choosing parse_continuation_z choosing_world_def)
  have m2: "strip ''k'' \<noteq> []"
    by (simp add: text_eval)
  note run = choice_mode_stops_after_moral [OF p1 s1 g1 m1 p2 s2 g2 m2, unfolded commit_a commit_z]
  from run show ?thesis
    by (simp add: record_event_def choosing_world_def after_z_def sample_story_def)
qed

text \<open>
  Claim C9, as amended.  A committed continuation keeps the title and adds 1 to the
  version.  Its content is the trimmed concatenation of the prior content without its
  trailing whitespace, a paragraph break and the trimmed beat; when the prior content and
  the beat are both non-empty and trimmed, that is the prior content, the paragraph break
  and the beat.  Its moral is the parsed moral when that is non-empty and trimmed, and the
  prior moral when the parsed moral is empty or whitespace.  What
  \<^verbatim>\<open>parse_continuation_response\<close> returns is always trimmed.
\<close>

theorem commit_continuation_effect:
  "title (commit_continuation s c m) = title s
   \<and> version (commit_continuation s c m) = version s + 1
   \<and> content (commit_continuation s c m) = strip (rstrip (content s) @ [newline, newline] @ strip c)
   \<and> (trimmed (content s) \<and> content s \<noteq> [] \<and> trimmed c \<and> c \<noteq> [] \<longrightarrow>
        content (commit_continuation s c m) = content s @ [newline, newline] @ c)
   \<and> (trimmed m \<and> m \<noteq> [] \<longrightarrow> moral (commit_continuation s c m) = m)
   \<and> (strip m = [] \<longrightarrow> moral (commit_continuation s c m) = moral s)
   \<and> (\<forall>text. parse_continuation_response text = Inr (c, m) \<longrightarrow> trimmed c \<and> trimmed m)"
proof -
  have "trimmed m \<and> m \<noteq> [] \<longrightarrow> moral (commit_continuation s c m) = m"
    by (auto simp: commit_continuation_def Let_def strip_trimmed)
  then show ?thesis
    using commit_content_plain [of s c m] parse_continuation_trimmed [of _ c m]
    by (auto simp: commit_continuation_def Let_def)
qed

theorem commit_continuation_witness:
  "trimmed (content sample_story) \<and> content sample_story \<noteq> [] \<and> trimmed ''Then.'' \<and> ''Then.'' \<noteq> []
   \<and> content (commit_continuation sample_story ''Then.'' []) = ''Once.'' @ [newline, newline] @ ''Then.''
   \<and> strip [] = []
   \<and> moral (commit_continuation sample_story ''Then.'' []) = ''Be kind.''
   \<and> parse_continuation_response ''Then.'' = Inr (''Then.'', [])
   \<and> version (commit_continuation sample_story ''Then.'' []) = 2"
proof -
  have t: "trimmed (content sample_story)" "content sample_story \<noteq> []" "trimmed ''Then.''"
    by (simp_all add: trimmed_def sample_story_def char_eval)
  have p: "parse_continuation_response ''Then.'' = Inr (''Then.'', [])"
    by (simp add: continuation_eval regex_eval text_eval)
  show ?thesis
    using commit_continuation_effect [of sample_story "''Then.''" "[]"] t p
    by (simp add: sample_story_def strip_def lstrip_def rstrip_def trimmed_def)
qed

text \<open>
  Claim C9 as stated fails where the beat is empty: the response \<^verbatim>\<open>CONTINUATION:\<close> is
  parsed to an empty beat, and the commit then appends no paragraph break.
\<close>

theorem commit_without_break_counterexample:
  "parse_continuation_response ''CONTINUATION:'' = Inr ([], [])
   \<and> content (commit_continuation sample_story [] []) = ''Once.''
   \<and> content (commit_continuation sample_story [] []) \<noteq> content sample_story @ [newline, newline] @ []"
  by (simp add: continuation_eval regex_eval text_eval commit_continuation_def sample_story_def)

text \<open>
  Claim C10.  \<^verbatim>\<open>normalize_tone\<close> always returns one of the six allowed tones.  When the trimmed
  and lowercased input is an allowed tone, that form is the result; in every other case,
  the empty string among them, the result is \<^verbatim>\<open>whimsical\<close>.  Applying the function to its own
  result changes nothing.
\<close>

theorem normalize_tone_allowed_idempotent:
  "normalize_tone t \<in> set allowed
   \<and> (lower (strip t) \<in> set allowed \<longrightarrow> normalize_tone t = lower (strip t))
   \<and> (lower (strip t) \<notin> set allowed \<longrightarrow> normalize_tone t = ''whimsical'')
   \<and> normalize_tone [] = ''whimsical''
   \<and> normalize_tone (normalize_tone t) = normalize_tone t"
proof -
  have mem: "normalize_tone t \<in> set allowed"
    unfolding normalize_tone_def Let_def by (simp add: allowed_def)
  have fixed: "normalize_tone u = u" if "u \<in> set allowed" for u
    using that allowed_fixed [OF that] unfolding normalize_tone_def Let_def by simp
  have empty: "normalize_tone [] = ''whimsical''"
    unfolding normalize_tone_def Let_def strip_def lstrip_def rstrip_def lower_def allowed_def
    by simp
  show ?thesis
    using mem fixed [OF mem] empty unfolding normalize_tone_def Let_def by simp
qed

theorem normalize_tone_witness:
  "lower (strip ''  CaLMing '') \<in> set allowed
   \<and> normalize_tone ''  CaLMing '' = ''calming''
   \<and> lower (strip ''spooky'') \<notin> set allowed
   \<and> normalize_tone ''spooky'' = ''whimsical''
   \<and> normalize_tone (normalize_tone ''  CaLMing '') = ''calming''"
proof -
  have l: "lower (strip ''  CaLMing '') = ''calming''"
    by (simp add: lower_def text_eval)
  have s: "lower (strip ''spooky'') = ''spooky''"
    by (simp add: lower_def text_eval)
  have a: "''calming'' \<in> set allowed" and b: "''spooky'' \<notin> set allowed"
    by (simp_all add: allowed_def)
  show ?thesis
    using normalize_tone_allowed_idempotent [of "''  CaLMing ''"]
      normalize_tone_allowed_idempotent [of "''spooky''"] a b
    unfolding l s by auto
qed

end
